theory Spec2Isabelle
  imports Main "HOL-Library.Sublist" "HOL-Library.Multiset"
begin

text \<open>
  A model of \<^verbatim>\<open>main.go\<close> of video-folder-cleanup: the scan of a media library laid out
  as library/studio/title/video, which collects orphaned folders, orphaned files, empty
  folders and structure warnings. The functions that classify are modelled as functions
  from a file system to the list of appends they make to the shared result; the worker
  pool of \<^verbatim>\<open>scanLibrary\<close> is modelled as a transition system over the goroutines.
  Printing and the deletion pass of \<^verbatim>\<open>main\<close> are not modelled.
\<close>

section \<open>Strings and paths\<close>

text \<open>
  Go strings are byte sequences; they are modelled as \<open>string\<close> (a list of 8-bit
  characters). The functions below are the ones \<^verbatim>\<open>main.go\<close> imports from
  \<^verbatim>\<open>strings\<close> and \<^verbatim>\<open>path/filepath\<close>, with the separator \<open>/\<close>.

  \<^verbatim>\<open>strings.ToLower\<close> maps the letters \<open>A\<close>..\<open>Z\<close> to \<open>a\<close>..\<open>z\<close> and leaves every
  other ASCII byte alone. Bytes from 128 on are left alone here as well; Go decodes them
  as UTF-8 and lowers the runes, so the model is Go's function on ASCII names.
\<close>

type_synonym path = string

definition lowerByte :: "char \<Rightarrow> char" where
  "lowerByte c =
     (case map_of (zip ''ABCDEFGHIJKLMNOPQRSTUVWXYZ'' ''abcdefghijklmnopqrstuvwxyz'') c of
        Some l \<Rightarrow> l
      | None \<Rightarrow> c)"

definition ToLower :: "string \<Rightarrow> string" where
  "ToLower s = map lowerByte s"

definition HasPrefix :: "string \<Rightarrow> string \<Rightarrow> bool" where
  "HasPrefix s pre = prefix pre s"

definition HasSuffix :: "string \<Rightarrow> string \<Rightarrow> bool" where
  "HasSuffix s suf = suffix suf s"

definition TrimSuffix :: "string \<Rightarrow> string \<Rightarrow> string" where
  "TrimSuffix s suf = (if HasSuffix s suf then take (length s - length suf) s else s)"

text \<open>
  \<^verbatim>\<open>filepath.Ext\<close> walks from the last byte towards the first, stops at a separator,
  and returns the suffix that starts at the first dot it meets; no dot gives the empty
  string. \<open>ExtFrom\<close> is that loop over the reversed path, the bytes already passed
  collected in \<open>seen\<close>.
\<close>

fun ExtFrom :: "string \<Rightarrow> string \<Rightarrow> string" where
  "ExtFrom [] seen = []"
| "ExtFrom (c # cs) seen =
     (if c = CHR ''/'' then []
      else if c = CHR ''.'' then c # seen
      else ExtFrom cs (c # seen))"

definition Ext :: "string \<Rightarrow> string" where
  "Ext p = ExtFrom (rev p) []"

text \<open>
  \<^verbatim>\<open>filepath.Base\<close>: the empty path gives \<open>.\<close>; trailing separators are dropped; the
  result is what follows the last separator, or \<open>/\<close> when nothing is left.
\<close>

definition Base :: "path \<Rightarrow> string" where
  "Base p =
     (if p = [] then ''.''
      else
        let stripped = dropWhile (\<lambda>c. c = CHR ''/'') (rev p);
            last_elem = rev (takeWhile (\<lambda>c. c \<noteq> CHR ''/'') stripped)
        in if last_elem = [] then ''/'' else last_elem)"

text \<open>
  \<^verbatim>\<open>filepath.Join dir name\<close> for a clean directory path (other than \<open>/\<close> and \<open>.\<close>)
  and the name of a directory entry: the two joined by one separator. The cleaning that
  \<^verbatim>\<open>Join\<close> does on other arguments is not modelled.
\<close>

definition Join :: "path \<Rightarrow> string \<Rightarrow> path" where
  "Join dir name = dir @ ''/'' @ name"

section \<open>The file system\<close>

text \<open>
  \<^verbatim>\<open>os.DirEntry\<close> is read through \<^verbatim>\<open>Name()\<close> and \<^verbatim>\<open>IsDir()\<close> only. The file system
  is what \<^verbatim>\<open>os.Stat\<close> and \<^verbatim>\<open>os.ReadDir\<close> answer for a path: an error (its text, as
  \<^verbatim>\<open>%v\<close> prints it) or a value. It does not change while a scan runs.
\<close>

record DirEntry =
  Name :: string
  IsDir :: bool

record filesystem =
  Stat :: "path \<Rightarrow> string + bool"
  ReadDir :: "path \<Rightarrow> string + DirEntry list"

section \<open>Constants and the result\<close>

definition videoExtensions :: "string \<Rightarrow> bool" where
  "videoExtensions ext = (ext \<in> set [''.mkv'', ''.mp4'', ''.avi'', ''.m4v''])"

definition metadataSubdirSuffixes :: "string list" where
  "metadataSubdirSuffixes = [''.trickplay'']"

record CleanupResult =
  OrphanedFolders :: "path list"
  OrphanedFiles :: "path list"
  EmptyFolders :: "path list"
  StructureWarnings :: "string list"

text \<open>
  The five messages the program formats into \<open>StructureWarnings\<close>, each with the path
  it is about; \<open>warning_text\<close> is the \<^verbatim>\<open>fmt.Sprintf\<close> of the source.
\<close>

datatype warning =
    CannotReadStudio path string
  | CannotReadTitle path string
  | UnexpectedSubdir path
  | VideoAtLevel string path
  | MetadataAtLevel string path

fun warning_text :: "warning \<Rightarrow> string" where
  "warning_text (CannotReadStudio p err) =
     ''Cannot read studio directory: '' @ p @ '' ('' @ err @ '')''"
| "warning_text (CannotReadTitle p err) =
     ''Cannot read title directory: '' @ p @ '' ('' @ err @ '')''"
| "warning_text (UnexpectedSubdir p) =
     ''Unexpected subdirectory in title folder: '' @ p"
| "warning_text (VideoAtLevel level p) =
     ''Video file at '' @ level @ '' level (should be in title folder): '' @ p"
| "warning_text (MetadataAtLevel level p) =
     ''Metadata file at '' @ level @ '' level (should be in title folder): '' @ p"

fun warning_path :: "warning \<Rightarrow> path" where
  "warning_path (CannotReadStudio p err) = p"
| "warning_path (CannotReadTitle p err) = p"
| "warning_path (UnexpectedSubdir p) = p"
| "warning_path (VideoAtLevel level p) = p"
| "warning_path (MetadataAtLevel level p) = p"

text \<open>
  Every write to the shared result is one append made while \<open>resultMu\<close> is held. An
  \<open>emission\<close> is one such append; a function of the program is modelled by the list of
  the emissions it makes, in program order, and \<open>commit\<close> performs them on a result.
\<close>

datatype emission =
    OrphanedFolder path
  | OrphanedFile path
  | EmptyFolder path
  | StructureWarning warning

fun emission_path :: "emission \<Rightarrow> path" where
  "emission_path (OrphanedFolder p) = p"
| "emission_path (OrphanedFile p) = p"
| "emission_path (EmptyFolder p) = p"
| "emission_path (StructureWarning w) = warning_path w"

fun append_result :: "CleanupResult \<Rightarrow> emission \<Rightarrow> CleanupResult" where
  "append_result r (OrphanedFolder p) = r\<lparr>OrphanedFolders := OrphanedFolders r @ [p]\<rparr>"
| "append_result r (OrphanedFile p) = r\<lparr>OrphanedFiles := OrphanedFiles r @ [p]\<rparr>"
| "append_result r (EmptyFolder p) = r\<lparr>EmptyFolders := EmptyFolders r @ [p]\<rparr>"
| "append_result r (StructureWarning w) =
     r\<lparr>StructureWarnings := StructureWarnings r @ [warning_text w]\<rparr>"

definition commit :: "emission list \<Rightarrow> CleanupResult \<Rightarrow> CleanupResult" where
  "commit es r = foldl append_result r es"

definition empty_result :: CleanupResult where
  "empty_result =
     \<lparr>OrphanedFolders = [], OrphanedFiles = [], EmptyFolders = [], StructureWarnings = []\<rparr>"

section \<open>The title-folder processor\<close>

definition isMetadataSubdir :: "string \<Rightarrow> bool" where
  "isMetadataSubdir name =
     list_ex (\<lambda>suffix. HasSuffix (ToLower name) suffix) metadataSubdirSuffixes"

text \<open>
  The loop of \<^verbatim>\<open>processTitleFolder\<close> over the entries, with its two variables
  \<open>hasVideoFile\<close> and \<open>unexpectedSubdirs\<close>.
\<close>

fun scanTitleEntries :: "DirEntry list \<Rightarrow> bool \<Rightarrow> string list \<Rightarrow> bool \<times> string list" where
  "scanTitleEntries [] hasVideoFile unexpectedSubdirs = (hasVideoFile, unexpectedSubdirs)"
| "scanTitleEntries (entry # rest) hasVideoFile unexpectedSubdirs =
     (if IsDir entry then
        (if \<not> isMetadataSubdir (Name entry)
         then scanTitleEntries rest hasVideoFile (unexpectedSubdirs @ [Name entry])
         else scanTitleEntries rest hasVideoFile unexpectedSubdirs)
      else
        (let ext = ToLower (Ext (Name entry))
         in if videoExtensions ext
            then scanTitleEntries rest True unexpectedSubdirs
            else scanTitleEntries rest hasVideoFile unexpectedSubdirs))"

definition processTitleFolder :: "filesystem \<Rightarrow> path \<Rightarrow> emission list" where
  "processTitleFolder fs titlePath =
     (case ReadDir fs titlePath of
        Inl err \<Rightarrow> [StructureWarning (CannotReadTitle titlePath err)]
      | Inr entries \<Rightarrow>
          if length entries = 0 then [EmptyFolder titlePath]
          else
            let (hasVideoFile, unexpectedSubdirs) = scanTitleEntries entries False []
            in map (\<lambda>subdir. StructureWarning (UnexpectedSubdir (Join titlePath subdir)))
                 unexpectedSubdirs
               @ (if \<not> hasVideoFile \<and> length entries > 0
                  then [OrphanedFolder titlePath] else []))"

section \<open>The off-level file check\<close>

text \<open>
  First pass of \<^verbatim>\<open>checkDirectChildren\<close>: the paths of the files of the directory and
  the set \<open>videoBasenames\<close> (the keys of the Go map).
\<close>

fun collectFiles :: "path \<Rightarrow> DirEntry list \<Rightarrow> path list \<Rightarrow> string set \<Rightarrow> path list \<times> string set" where
  "collectFiles dirPath [] files videoBasenames = (files, videoBasenames)"
| "collectFiles dirPath (entry # rest) files videoBasenames =
     (if \<not> IsDir entry then
        (let filePath = Join dirPath (Name entry);
             ext = ToLower (Ext (Name entry))
         in if videoExtensions ext
            then (let basename = TrimSuffix (Name entry) (Ext (Name entry))
                  in collectFiles dirPath rest (files @ [filePath])
                       (insert (ToLower basename) videoBasenames))
            else collectFiles dirPath rest (files @ [filePath]) videoBasenames)
      else collectFiles dirPath rest files videoBasenames)"

text \<open>
  Second pass, for one file. The loop over the map with its \<^verbatim>\<open>break\<close> computes
  whether some key is a prefix, whatever order the map is walked in.
\<close>

definition categorize :: "string \<Rightarrow> string set \<Rightarrow> path \<Rightarrow> emission" where
  "categorize level videoBasenames filePath =
     (let filename = Base filePath;
          ext = ToLower (Ext filename)
      in if videoExtensions ext then StructureWarning (VideoAtLevel level filePath)
         else
           (let basename = TrimSuffix filename ext;
                hasMatchingVideo =
                  (\<exists>videoBase \<in> videoBasenames. HasPrefix (ToLower basename) videoBase)
            in if hasMatchingVideo then StructureWarning (MetadataAtLevel level filePath)
               else OrphanedFile filePath))"

definition checkDirectChildren :: "filesystem \<Rightarrow> path \<Rightarrow> string \<Rightarrow> emission list" where
  "checkDirectChildren fs dirPath level =
     (case ReadDir fs dirPath of
        Inl err \<Rightarrow> []
      | Inr entries \<Rightarrow>
          let (files, videoBasenames) = collectFiles dirPath entries [] {}
          in map (categorize level videoBasenames) files)"

section \<open>The studio processor\<close>

text \<open>The loop of \<^verbatim>\<open>processStudio\<close> over the entries of the studio directory.\<close>

fun processTitleEntries :: "filesystem \<Rightarrow> path \<Rightarrow> DirEntry list \<Rightarrow> emission list" where
  "processTitleEntries fs studioPath [] = []"
| "processTitleEntries fs studioPath (entry # rest) =
     (if \<not> IsDir entry then processTitleEntries fs studioPath rest
      else processTitleFolder fs (Join studioPath (Name entry))
           @ processTitleEntries fs studioPath rest)"

definition processStudio :: "filesystem \<Rightarrow> path \<Rightarrow> emission list" where
  "processStudio fs studioPath =
     checkDirectChildren fs studioPath ''studio''
     @ (case ReadDir fs studioPath of
          Inl err \<Rightarrow> [StructureWarning (CannotReadStudio studioPath err)]
        | Inr titleEntries \<Rightarrow> processTitleEntries fs studioPath titleEntries)"

definition isDirEmpty :: "filesystem \<Rightarrow> path \<Rightarrow> bool \<times> string option" where
  "isDirEmpty fs dirPath =
     (case ReadDir fs dirPath of
        Inl err \<Rightarrow> (False, Some err)
      | Inr entries \<Rightarrow> (length entries = 0, None))"

section \<open>The scan coordinator and its worker pool\<close>

text \<open>The first loop of \<^verbatim>\<open>scanLibrary\<close>: the paths of the studio directories.\<close>

fun collectStudioDirs :: "path \<Rightarrow> DirEntry list \<Rightarrow> path list \<Rightarrow> path list" where
  "collectStudioDirs libraryPath [] studioDirs = studioDirs"
| "collectStudioDirs libraryPath (entry # rest) studioDirs =
     (if IsDir entry
      then collectStudioDirs libraryPath rest (studioDirs @ [Join libraryPath (Name entry)])
      else collectStudioDirs libraryPath rest studioDirs)"

text \<open>
  The concurrent part of \<^verbatim>\<open>scanLibrary\<close> is a transition system. A state holds

  \<^item> where the coordinator (the goroutine that runs \<^verbatim>\<open>scanLibrary\<close>) stands: in the
    loop that sends the studio directories still listed, at \<^verbatim>\<open>wg.Wait()\<close> after
    \<^verbatim>\<open>close(studioChan)\<close>, in the loop of the second pass over the studio directories
    still listed, or returned;
  \<^item> the content of the buffered channel \<open>studioChan\<close>, its capacity, and whether it is
    closed;
  \<^item> one entry per worker goroutine: \<open>Idle\<close> at the \<^verbatim>\<open>range studioChan\<close>, \<open>Busy es\<close>
    inside \<^verbatim>\<open>processStudio\<close> with the appends \<open>es\<close> still to make, \<open>Exited\<close> once the
    range loop is over and \<^verbatim>\<open>wg.Done()\<close> has run;
  \<^item> \<open>emitted\<close>, the appends made to the shared result so far, in the order in which
    the mutex let them through.

  The wait group's counter is the number of workers that are not \<open>Exited\<close>. One step
  is one action of one goroutine; any goroutine that can move may move.
\<close>

datatype worker = Idle | Busy "emission list" | Exited

datatype coordinator = Sending "path list" | Waiting | Checking "path list" | Returned

record scan_state =
  coord :: coordinator
  studioChan :: "path list"
  capacity :: nat
  closed :: bool
  workers :: "worker list"
  emitted :: "emission list"
  studioDirs :: "path list"

inductive step :: "filesystem \<Rightarrow> scan_state \<Rightarrow> scan_state \<Rightarrow> bool" for fs :: filesystem where
  send:
    "coord s = Sending (studioDir # rest) \<Longrightarrow> length (studioChan s) < capacity s \<Longrightarrow>
     step fs s (s\<lparr>studioChan := studioChan s @ [studioDir], coord := Sending rest\<rparr>)"
| close:
    "coord s = Sending [] \<Longrightarrow>
     step fs s (s\<lparr>closed := True, coord := Waiting\<rparr>)"
| wait:
    "coord s = Waiting \<Longrightarrow> list_all (\<lambda>w. w = Exited) (workers s) \<Longrightarrow>
     step fs s (s\<lparr>coord := Checking (studioDirs s)\<rparr>)"
| check:
    "coord s = Checking (studioPath # rest) \<Longrightarrow>
     step fs s (s\<lparr>emitted := emitted s @ (if fst (isDirEmpty fs studioPath)
                                          then [EmptyFolder studioPath] else []),
                 coord := Checking rest\<rparr>)"
| return:
    "coord s = Checking [] \<Longrightarrow>
     step fs s (s\<lparr>coord := Returned\<rparr>)"
| receive:
    "workers s = ws @ Idle # ws' \<Longrightarrow> studioChan s = studioPath # queue \<Longrightarrow>
     step fs s (s\<lparr>studioChan := queue,
                 workers := ws @ Busy (processStudio fs studioPath) # ws'\<rparr>)"
| emit:
    "workers s = ws @ Busy (e # es) # ws' \<Longrightarrow>
     step fs s (s\<lparr>emitted := emitted s @ [e], workers := ws @ Busy es # ws'\<rparr>)"
| finish:
    "workers s = ws @ Busy [] # ws' \<Longrightarrow>
     step fs s (s\<lparr>workers := ws @ Idle # ws'\<rparr>)"
| exit:
    "workers s = ws @ Idle # ws' \<Longrightarrow> studioChan s = [] \<Longrightarrow> closed s \<Longrightarrow>
     step fs s (s\<lparr>workers := ws @ Exited # ws'\<rparr>)"

text \<open>
  The state after \<^verbatim>\<open>make(chan string, len(studioDirs))\<close> and the loop that starts the
  workers: \<^verbatim>\<open>for i := 0; i < numWorkers; i++\<close> starts none when \<open>numWorkers\<close> is zero
  or negative. \<open>done\<close> is what the coordinator has appended before.
\<close>

definition initial :: "path list \<Rightarrow> int \<Rightarrow> emission list \<Rightarrow> scan_state" where
  "initial dirs numWorkers done =
     \<lparr>coord = Sending dirs, studioChan = [], capacity = length dirs, closed = False,
      workers = replicate (nat numWorkers) Idle, emitted = done, studioDirs = dirs\<rparr>"

text \<open>
  \<open>scanLibrary fs libraryPath numWorkers es\<close>: the scan of \<open>libraryPath\<close> can return
  having made exactly the appends \<open>es\<close>, in this order. The two console messages for a
  path that cannot be scanned are not part of the result and are left out.
\<close>

definition scanLibrary :: "filesystem \<Rightarrow> path \<Rightarrow> int \<Rightarrow> emission list \<Rightarrow> bool" where
  "scanLibrary fs libraryPath numWorkers es =
     (case Stat fs libraryPath of
        Inl err \<Rightarrow> es = []
      | Inr isDir \<Rightarrow>
          if \<not> isDir then es = []
          else
            (case ReadDir fs libraryPath of
               Inl err \<Rightarrow> es = checkDirectChildren fs libraryPath ''library''
             | Inr studioEntries \<Rightarrow>
                 (\<exists>s. (step fs)\<^sup>*\<^sup>*
                        (initial (collectStudioDirs libraryPath studioEntries [])
                           numWorkers (checkDirectChildren fs libraryPath ''library'')) s
                    \<and> coord s = Returned \<and> es = emitted s)))"

text \<open>The appends of the second pass over the listed studio directories.\<close>

fun secondPass :: "filesystem \<Rightarrow> path list \<Rightarrow> emission list" where
  "secondPass fs [] = []"
| "secondPass fs (studioPath # rest) =
     (if fst (isDirEmpty fs studioPath) then [EmptyFolder studioPath] else [])
     @ secondPass fs rest"

text \<open>
  One schedule, as a function: a single worker takes the studio directories in the
  order of the channel. With no worker no studio is processed.
\<close>

definition scanInOrder :: "filesystem \<Rightarrow> path \<Rightarrow> int \<Rightarrow> emission list" where
  "scanInOrder fs libraryPath numWorkers =
     (case Stat fs libraryPath of
        Inl err \<Rightarrow> []
      | Inr isDir \<Rightarrow>
          if \<not> isDir then []
          else
            (case ReadDir fs libraryPath of
               Inl err \<Rightarrow> checkDirectChildren fs libraryPath ''library''
             | Inr studioEntries \<Rightarrow>
                 (let dirs = collectStudioDirs libraryPath studioEntries []
                  in checkDirectChildren fs libraryPath ''library''
                     @ (if 1 \<le> numWorkers then concat (map (processStudio fs) dirs) else [])
                     @ secondPass fs dirs)))"

section \<open>Notions used to state the properties\<close>

text \<open>The entries that an emission list adds to each of the four sequences.\<close>

primrec orphanedFoldersOf :: "emission list \<Rightarrow> path list" where
  "orphanedFoldersOf [] = []"
| "orphanedFoldersOf (e # es) =
     (case e of OrphanedFolder p \<Rightarrow> p # orphanedFoldersOf es | _ \<Rightarrow> orphanedFoldersOf es)"

primrec orphanedFilesOf :: "emission list \<Rightarrow> path list" where
  "orphanedFilesOf [] = []"
| "orphanedFilesOf (e # es) =
     (case e of OrphanedFile p \<Rightarrow> p # orphanedFilesOf es | _ \<Rightarrow> orphanedFilesOf es)"

primrec emptyFoldersOf :: "emission list \<Rightarrow> path list" where
  "emptyFoldersOf [] = []"
| "emptyFoldersOf (e # es) =
     (case e of EmptyFolder p \<Rightarrow> p # emptyFoldersOf es | _ \<Rightarrow> emptyFoldersOf es)"

primrec warningsOf :: "emission list \<Rightarrow> warning list" where
  "warningsOf [] = []"
| "warningsOf (e # es) =
     (case e of StructureWarning w \<Rightarrow> w # warningsOf es | _ \<Rightarrow> warningsOf es)"

text \<open>
  A video file, in the words of the data model: a file whose lowercased extension is
  one of the four video extensions.
\<close>

definition isVideoFile :: "DirEntry \<Rightarrow> bool" where
  "isVideoFile entry = (\<not> IsDir entry \<and> videoExtensions (ToLower (Ext (Name entry))))"

text \<open>
  The basename of the data model: the file name minus its trailing extension,
  lowercased. The first pass of \<^verbatim>\<open>checkDirectChildren\<close> computes it for the videos.
\<close>

definition lowerBasename :: "string \<Rightarrow> string" where
  "lowerBasename name = ToLower (TrimSuffix name (Ext name))"

definition videoBasenamesOf :: "DirEntry list \<Rightarrow> string set" where
  "videoBasenamesOf entries = lowerBasename ` Name ` {e \<in> set entries. isVideoFile e}"

text \<open>A name as a directory listing gives it: not empty and without a separator.\<close>

definition entryName :: "string \<Rightarrow> bool" where
  "entryName name = (name \<noteq> [] \<and> CHR ''/'' \<notin> set name)"

text \<open>What a worker has still to append, and the appends a studio directory stands for.\<close>

fun remaining :: "worker \<Rightarrow> emission list" where
  "remaining Idle = []"
| "remaining (Busy es) = es"
| "remaining Exited = []"

definition work :: "filesystem \<Rightarrow> path \<Rightarrow> emission multiset" where
  "work fs studioPath = mset (processStudio fs studioPath)"

definition in_flight :: "filesystem \<Rightarrow> scan_state \<Rightarrow> emission multiset" where
  "in_flight fs s =
     sum_list (map (\<lambda>w. mset (remaining w)) (workers s))
     + sum_list (map (work fs) (studioChan s))"

text \<open>
  The invariant of the transition system started on \<open>dirs\<close> with \<open>done\<close> already
  appended. \<open>W\<close> is what the workers have appended, \<open>P\<close> what the second pass has
  appended, \<open>taken\<close> the studio directories received from the channel so far.
\<close>

definition pool_inv ::
  "filesystem \<Rightarrow> path list \<Rightarrow> emission list \<Rightarrow> emission list \<Rightarrow> emission list \<Rightarrow> path list
     \<Rightarrow> scan_state \<Rightarrow> bool" where
  "pool_inv fs dirs done W P taken s \<longleftrightarrow>
     studioDirs s = dirs \<and> capacity s = length dirs \<and> emitted s = done @ W @ P \<and>
     (workers s = [] \<longrightarrow> W = [] \<and> taken = []) \<and>
     (Exited \<in> set (workers s) \<longrightarrow> closed s \<and> studioChan s = []) \<and>
     (case coord s of
        Sending rest \<Rightarrow>
          \<not> closed s \<and> P = [] \<and> taken @ studioChan s @ rest = dirs \<and>
          mset W + in_flight fs s + sum_list (map (work fs) rest) = sum_list (map (work fs) dirs)
      | Waiting \<Rightarrow>
          closed s \<and> P = [] \<and> taken @ studioChan s = dirs \<and>
          mset W + in_flight fs s = sum_list (map (work fs) dirs)
      | Checking rest \<Rightarrow>
          closed s \<and> list_all (\<lambda>w. w = Exited) (workers s) \<and> taken @ studioChan s = dirs \<and>
          (\<exists>before. before @ rest = dirs \<and> P = secondPass fs before) \<and>
          mset W + in_flight fs s = sum_list (map (work fs) dirs)
      | Returned \<Rightarrow>
          closed s \<and> list_all (\<lambda>w. w = Exited) (workers s) \<and> taken @ studioChan s = dirs \<and>
          P = secondPass fs dirs \<and>
          mset W + in_flight fs s = sum_list (map (work fs) dirs))"

text \<open>A bound on the number of steps a state can still take.\<close>

fun worker_cost :: "worker \<Rightarrow> nat" where
  "worker_cost Idle = 1"
| "worker_cost (Busy es) = length es + 2"
| "worker_cost Exited = 0"

definition studio_cost :: "filesystem \<Rightarrow> path \<Rightarrow> nat" where
  "studio_cost fs studioPath = length (processStudio fs studioPath) + 2"

fun coord_cost :: "filesystem \<Rightarrow> nat \<Rightarrow> coordinator \<Rightarrow> nat" where
  "coord_cost fs n (Sending rest) = sum_list (map (\<lambda>d. studio_cost fs d + 1) rest) + n + 3"
| "coord_cost fs n Waiting = n + 2"
| "coord_cost fs n (Checking rest) = length rest + 1"
| "coord_cost fs n Returned = 0"

definition steps_left :: "filesystem \<Rightarrow> scan_state \<Rightarrow> nat" where
  "steps_left fs s =
     coord_cost fs (length (studioDirs s)) (coord s)
     + sum_list (map (studio_cost fs) (studioChan s))
     + sum_list (map worker_cost (workers s))"

text \<open>
  The state in which a scan that started \<open>numWorkers\<close> workers has returned, with
  \<open>queue\<close> left in the channel and \<open>es\<close> appended.
\<close>

definition returned_state :: "path list \<Rightarrow> path list \<Rightarrow> int \<Rightarrow> emission list \<Rightarrow> scan_state" where
  "returned_state dirs queue numWorkers es =
     \<lparr>coord = Returned, studioChan = queue, capacity = length dirs, closed = True,
      workers = replicate (nat numWorkers) Exited, emitted = es, studioDirs = dirs\<rparr>"






section \<open>Example directory trees\<close>

definition file_entry :: "string \<Rightarrow> DirEntry" where
  "file_entry n = \<lparr>Name = n, IsDir = False\<rparr>"

definition dir_entry :: "string \<Rightarrow> DirEntry" where
  "dir_entry n = \<lparr>Name = n, IsDir = True\<rparr>"

text \<open>
  The file system that holds the listed directories and nothing else: a listed path is a
  directory with the given entries, any other path cannot be read.
\<close>

definition tree_fs :: "(path \<times> DirEntry list) list \<Rightarrow> filesystem" where
  "tree_fs table =
     \<lparr>Stat = (\<lambda>p. case map_of table p of
                    Some entries \<Rightarrow> Inr True
                  | None \<Rightarrow> Inl ''no such file or directory''),
      ReadDir = (\<lambda>p. case map_of table p of
                       Some entries \<Rightarrow> Inr entries
                     | None \<Rightarrow> Inl ''permission denied'')\<rparr>"

text \<open>
  A library with a stray file at the root, a studio with four title folders (valid,
  orphaned with an unexpected subdirectory, empty, unreadable) and off-level files, an
  empty studio, and a studio that cannot be read.
\<close>

definition library_fs :: filesystem where
  "library_fs = tree_fs
     [(''lib'', [dir_entry ''Locked'', dir_entry ''StudioA'', dir_entry ''StudioB'',
                file_entry ''readme.txt'']),
      (''lib/StudioA'', [dir_entry ''Gone'', dir_entry ''Movie1'', dir_entry ''Movie2'',
                        dir_entry ''Movie3'', file_entry ''deleted.nfo'',
                        file_entry ''movie.mkv'', file_entry ''movie2.nfo'']),
      (''lib/StudioA/Movie1'', [dir_entry ''MOVIE.TRICKPLAY'', dir_entry ''extras'',
                               file_entry ''movie.Mkv'', file_entry ''movie.nfo'']),
      (''lib/StudioA/Movie2'', [dir_entry ''extras'', file_entry ''poster.jpg'']),
      (''lib/StudioA/Movie3'', []),
      (''lib/StudioB'', [])]"

text \<open>A directory whose only video is named \<open>.mkv\<close>.\<close>

definition dotfile_fs :: filesystem where
  "dotfile_fs = tree_fs
     [(''lib'', [file_entry ''.mkv'', file_entry ''cover.jpg'', file_entry ''notes.txt''])]"

text \<open>A video and a file whose upper-case extension completes the video's basename.\<close>

definition uppercase_fs :: filesystem where
  "uppercase_fs = tree_fs
     [(''lib'', [file_entry ''trailer.HD'', file_entry ''trailer.HD.mkv''])]"

section \<open>Committing emissions\<close>

lemma orphanedFoldersOf_append [simp]:
  "orphanedFoldersOf (xs @ ys) = orphanedFoldersOf xs @ orphanedFoldersOf ys"
  by (induction xs) (auto split: emission.splits)

lemma orphanedFilesOf_append [simp]:
  "orphanedFilesOf (xs @ ys) = orphanedFilesOf xs @ orphanedFilesOf ys"
  by (induction xs) (auto split: emission.splits)

lemma emptyFoldersOf_append [simp]:
  "emptyFoldersOf (xs @ ys) = emptyFoldersOf xs @ emptyFoldersOf ys"
  by (induction xs) (auto split: emission.splits)

lemma warningsOf_append [simp]:
  "warningsOf (xs @ ys) = warningsOf xs @ warningsOf ys"
  by (induction xs) (auto split: emission.splits)

lemma commit_Nil [simp]: "commit [] r = r"
  by (simp add: commit_def)

lemma commit_Cons [simp]: "commit (e # es) r = commit es (append_result r e)"
  by (simp add: commit_def)

lemma commit_append [simp]: "commit (xs @ ys) r = commit ys (commit xs r)"
  by (simp add: commit_def)

lemma OrphanedFolders_commit:
  "OrphanedFolders (commit es r) = OrphanedFolders r @ orphanedFoldersOf es"
proof (induction es arbitrary: r)
  case Nil
  show ?case by simp
next
  case (Cons e es)
  show ?case by (cases e) (simp_all add: Cons.IH)
qed

lemma OrphanedFiles_commit:
  "OrphanedFiles (commit es r) = OrphanedFiles r @ orphanedFilesOf es"
proof (induction es arbitrary: r)
  case Nil
  show ?case by simp
next
  case (Cons e es)
  show ?case by (cases e) (simp_all add: Cons.IH)
qed

lemma EmptyFolders_commit:
  "EmptyFolders (commit es r) = EmptyFolders r @ emptyFoldersOf es"
proof (induction es arbitrary: r)
  case Nil
  show ?case by simp
next
  case (Cons e es)
  show ?case by (cases e) (simp_all add: Cons.IH)
qed

lemma StructureWarnings_commit:
  "StructureWarnings (commit es r) = StructureWarnings r @ map warning_text (warningsOf es)"
proof (induction es arbitrary: r)
  case Nil
  show ?case by simp
next
  case (Cons e es)
  show ?case by (cases e) (simp_all add: Cons.IH)
qed

lemma scanTitleEntries_eq:
  "scanTitleEntries entries hv us =
     (hv \<or> (\<exists>e \<in> set entries. isVideoFile e),
      us @ map Name (filter (\<lambda>e. IsDir e \<and> \<not> isMetadataSubdir (Name e)) entries))"
  by (induction entries arbitrary: hv us) (auto simp: isVideoFile_def Let_def)

lemma processTitleFolder_readable:
  assumes "ReadDir fs titlePath = Inr entries"
  shows "processTitleFolder fs titlePath =
     (if entries = [] then [EmptyFolder titlePath]
      else map (\<lambda>e. StructureWarning (UnexpectedSubdir (Join titlePath (Name e))))
             (filter (\<lambda>e. IsDir e \<and> \<not> isMetadataSubdir (Name e)) entries)
           @ (if \<exists>e \<in> set entries. isVideoFile e then [] else [OrphanedFolder titlePath]))"
  using assms by (simp add: processTitleFolder_def scanTitleEntries_eq comp_def)

lemma orphanedFoldersOf_warnings [simp]:
  "orphanedFoldersOf (map (\<lambda>x. StructureWarning (f x)) xs) = []"
  by (induction xs) simp_all

lemma orphanedFilesOf_warnings [simp]:
  "orphanedFilesOf (map (\<lambda>x. StructureWarning (f x)) xs) = []"
  by (induction xs) simp_all

lemma emptyFoldersOf_warnings [simp]:
  "emptyFoldersOf (map (\<lambda>x. StructureWarning (f x)) xs) = []"
  by (induction xs) simp_all

lemma warningsOf_warnings [simp]:
  "warningsOf (map (\<lambda>x. StructureWarning (f x)) xs) = map f xs"
  by (induction xs) simp_all

section \<open>The transition system: invariant, progress, termination\<close>

lemma secondPass_append: "secondPass fs (xs @ ys) = secondPass fs xs @ secondPass fs ys"
  by (induction xs) simp_all

lemma sum_list_replicate_empty_mset:
  "sum_list (replicate k ({#} :: 'a multiset)) = {#}"
  by (induction k) simp_all

lemma pool_inv_initial: "pool_inv fs dirs done [] [] [] (initial dirs n done)"
  by (simp add: pool_inv_def initial_def in_flight_def sum_list_replicate_empty_mset)

lemma pool_inv_step:
  assumes "step fs s s'" and "pool_inv fs dirs done W P taken s"
  shows "\<exists>W' P' taken'. pool_inv fs dirs done W' P' taken' s'"
  using assms
proof (cases rule: step.cases)
  case (send studioDir rest)
  with assms(2) have "pool_inv fs dirs done W P taken s'"
    by (auto simp: pool_inv_def in_flight_def ac_simps)
  then show ?thesis by blast
next
  case close
  with assms(2) have "pool_inv fs dirs done W P taken s'"
    by (auto simp: pool_inv_def in_flight_def)
  then show ?thesis by blast
next
  case wait
  with assms(2) have "pool_inv fs dirs done W P taken s'"
    by (auto simp: pool_inv_def in_flight_def)
  then show ?thesis by blast
next
  case (check studioPath rest)
  from assms(2) check obtain before where
    before: "before @ studioPath # rest = dirs" "P = secondPass fs before"
    by (auto simp: pool_inv_def)
  define P' where "P' = secondPass fs (before @ [studioPath])"
  have split: "(before @ [studioPath]) @ rest = dirs"
    using before(1) by simp
  have P': "P' = P @ (if fst (isDirEmpty fs studioPath) then [EmptyFolder studioPath] else [])"
    using before(2) by (simp add: P'_def secondPass_append)
  have "emitted s' = done @ W @ P'"
    using assms(2) check by (simp add: pool_inv_def P')
  moreover have "\<exists>b. b @ rest = dirs \<and> P' = secondPass fs b"
    using split P'_def by blast
  ultimately have "pool_inv fs dirs done W P' taken s'"
    using assms(2) check by (simp add: pool_inv_def in_flight_def)
  then show ?thesis by blast
next
  case return
  with assms(2) have "pool_inv fs dirs done W P taken s'"
    by (auto simp: pool_inv_def in_flight_def)
  then show ?thesis by blast
next
  case (receive ws ws' studioPath queue)
  with assms(2) have "pool_inv fs dirs done W P (taken @ [studioPath]) s'"
    by (auto simp: pool_inv_def in_flight_def work_def ac_simps split: coordinator.splits)
  then show ?thesis by blast
next
  case (emit ws e es ws')
  with assms(2) have "pool_inv fs dirs done (W @ [e]) P taken s'"
    by (auto simp: pool_inv_def in_flight_def ac_simps split: coordinator.splits)
  then show ?thesis by blast
next
  case (finish ws ws')
  with assms(2) have "pool_inv fs dirs done W P taken s'"
    by (auto simp: pool_inv_def in_flight_def split: coordinator.splits)
  then show ?thesis by blast
next
  case (exit ws ws')
  with assms(2) have "pool_inv fs dirs done W P taken s'"
    by (auto simp: pool_inv_def in_flight_def split: coordinator.splits)
  then show ?thesis by blast
qed

lemma pool_inv_reachable:
  assumes "(step fs)\<^sup>*\<^sup>* (initial dirs n done) s"
  shows "\<exists>W P taken. pool_inv fs dirs done W P taken s"
  using assms
proof (induction rule: rtranclp_induct)
  case base
  show ?case using pool_inv_initial by blast
next
  case (step y z)
  then show ?case using pool_inv_step by blast
qed

lemma step_decreases: "step fs s s' \<Longrightarrow> steps_left fs s' < steps_left fs s"
  by (induction rule: step.induct) (simp_all add: steps_left_def studio_cost_def)

lemma wf_step: "wf {(s', s). step fs s s'}"
  by (rule wf_subset [OF wf_measure [of "steps_left fs"]]) (auto simp: step_decreases)

lemma no_infinite_run: "\<nexists>run. \<forall>i. step fs (run i) (run (Suc i))"
  using wf_step [of fs] by (simp add: wf_iff_no_infinite_down_chain)

lemma pool_progress:
  assumes inv: "pool_inv fs dirs done W P taken s" and "coord s \<noteq> Returned"
  shows "\<exists>s'. step fs s s'"
proof (cases "coord s")
  case (Sending rest)
  show ?thesis
  proof (cases rest)
    case Nil
    with Sending show ?thesis by (blast intro: step.close)
  next
    case (Cons d rest')
    from inv Sending Cons have "taken @ studioChan s @ d # rest' = dirs" "capacity s = length dirs"
      by (auto simp: pool_inv_def)
    then have "length (studioChan s) < capacity s"
      by (metis length_append length_Cons add_Suc_right less_add_Suc2 less_add_Suc1 trans_less_add2)
    with Sending Cons show ?thesis by (blast intro: step.send)
  qed
next
  case Waiting
  show ?thesis
  proof (cases "list_all (\<lambda>w. w = Exited) (workers s)")
    case True
    with Waiting show ?thesis by (blast intro: step.wait)
  next
    case False
    then obtain w where "w \<in> set (workers s)" "w \<noteq> Exited"
      by (auto simp: list_all_iff)
    then obtain ws ws' where ws: "workers s = ws @ w # ws'"
      by (auto dest: split_list)
    from inv Waiting have cl: "closed s" by (simp add: pool_inv_def)
    show ?thesis
    proof (cases w)
      case Idle
      show ?thesis
      proof (cases "studioChan s")
        case Nil
        with ws Idle cl show ?thesis by (blast intro: step.exit)
      next
        case (Cons d q)
        with ws Idle show ?thesis by (blast intro: step.receive)
      qed
    next
      case (Busy es)
      show ?thesis
      proof (cases es)
        case Nil
        with ws Busy show ?thesis by (blast intro: step.finish)
      next
        case (Cons e es')
        with ws Busy show ?thesis by (blast intro: step.emit)
      qed
    next
      case Exited
      with \<open>w \<noteq> Exited\<close> show ?thesis by simp
    qed
  qed
next
  case (Checking rest)
  then show ?thesis by (cases rest) (blast intro: step.check step.return)+
next
  case Returned
  with assms(2) show ?thesis by simp
qed

section \<open>The schedule that takes the studios in order\<close>

lemma run_sends:
  assumes "coord s = Sending rest" "length (studioChan s) + length rest \<le> capacity s"
  shows "(step fs)\<^sup>*\<^sup>* s (s\<lparr>studioChan := studioChan s @ rest, coord := Sending []\<rparr>)"
  using assms
proof (induction rest arbitrary: s)
  case Nil
  then have "s\<lparr>studioChan := studioChan s @ [], coord := Sending []\<rparr> = s" by simp
  then show ?case by simp
next
  case (Cons d rest)
  let ?s1 = "s\<lparr>studioChan := studioChan s @ [d], coord := Sending rest\<rparr>"
  have "step fs s ?s1"
    using Cons.prems by (intro step.send) simp_all
  moreover have "(step fs)\<^sup>*\<^sup>* ?s1 (?s1\<lparr>studioChan := studioChan ?s1 @ rest, coord := Sending []\<rparr>)"
    using Cons.prems by (intro Cons.IH) simp_all
  ultimately show ?case by simp
qed

lemma run_emits:
  assumes "workers s = ws @ Busy es # ws'"
  shows "(step fs)\<^sup>*\<^sup>* s (s\<lparr>emitted := emitted s @ es, workers := ws @ Busy [] # ws'\<rparr>)"
  using assms
proof (induction es arbitrary: s)
  case Nil
  then have "s\<lparr>emitted := emitted s @ [], workers := ws @ Busy [] # ws'\<rparr> = s" by simp
  then show ?case by simp
next
  case (Cons e es)
  let ?s1 = "s\<lparr>emitted := emitted s @ [e], workers := ws @ Busy es # ws'\<rparr>"
  have "step fs s ?s1"
    using Cons.prems by (rule step.emit)
  moreover have "(step fs)\<^sup>*\<^sup>* ?s1 (?s1\<lparr>emitted := emitted ?s1 @ es, workers := ws @ Busy [] # ws'\<rparr>)"
    by (intro Cons.IH) simp
  ultimately show ?case by simp
qed

lemma run_studio:
  assumes "workers s = ws @ Idle # ws'" "studioChan s = d # queue"
  shows "(step fs)\<^sup>*\<^sup>* s (s\<lparr>studioChan := queue, emitted := emitted s @ processStudio fs d\<rparr>)"
proof -
  let ?s1 = "s\<lparr>studioChan := queue, workers := ws @ Busy (processStudio fs d) # ws'\<rparr>"
  let ?s2 = "?s1\<lparr>emitted := emitted ?s1 @ processStudio fs d, workers := ws @ Busy [] # ws'\<rparr>"
  let ?s3 = "?s2\<lparr>workers := ws @ Idle # ws'\<rparr>"
  have "step fs s ?s1" using assms by (rule step.receive)
  moreover have "(step fs)\<^sup>*\<^sup>* ?s1 ?s2" by (rule run_emits) simp
  moreover have "step fs ?s2 ?s3" by (rule step.finish) simp
  moreover have "?s3 = s\<lparr>studioChan := queue, emitted := emitted s @ processStudio fs d\<rparr>"
    using assms by simp
  ultimately show ?thesis
    by (auto intro: converse_rtranclp_into_rtranclp rtranclp.rtrancl_into_rtrancl)
qed

lemma run_queue:
  assumes "workers s = ws @ Idle # ws'" "studioChan s = queue"
  shows "(step fs)\<^sup>*\<^sup>* s
           (s\<lparr>studioChan := [], emitted := emitted s @ concat (map (processStudio fs) queue)\<rparr>)"
  using assms
proof (induction queue arbitrary: s)
  case Nil
  then have "s\<lparr>studioChan := [], emitted := emitted s @ concat (map (processStudio fs) [])\<rparr> = s"
    by simp
  then show ?case by simp
next
  case (Cons d queue)
  let ?s1 = "s\<lparr>studioChan := queue, emitted := emitted s @ processStudio fs d\<rparr>"
  have "(step fs)\<^sup>*\<^sup>* s ?s1"
    using Cons.prems by (rule run_studio)
  moreover have "(step fs)\<^sup>*\<^sup>* ?s1
      (?s1\<lparr>studioChan := [], emitted := emitted ?s1 @ concat (map (processStudio fs) queue)\<rparr>)"
    using Cons.prems by (intro Cons.IH) simp_all
  ultimately show ?case by simp
qed

lemma run_exits:
  assumes "workers s = replicate k Exited @ replicate m Idle" "studioChan s = []" "closed s"
  shows "(step fs)\<^sup>*\<^sup>* s (s\<lparr>workers := replicate (k + m) Exited\<rparr>)"
  using assms
proof (induction m arbitrary: s k)
  case 0
  then have "s\<lparr>workers := replicate (k + 0) Exited\<rparr> = s" by simp
  then show ?case by simp
next
  case (Suc m)
  let ?s1 = "s\<lparr>workers := replicate k Exited @ Exited # replicate m Idle\<rparr>"
  have "step fs s ?s1"
    using Suc.prems by (intro step.exit) simp_all
  moreover have "(step fs)\<^sup>*\<^sup>* ?s1 (?s1\<lparr>workers := replicate (Suc k + m) Exited\<rparr>)"
    using Suc.prems by (intro Suc.IH) (simp_all add: replicate_append_same)
  ultimately show ?case by simp
qed

lemma run_checks:
  assumes "coord s = Checking rest"
  shows "(step fs)\<^sup>*\<^sup>* s (s\<lparr>emitted := emitted s @ secondPass fs rest, coord := Checking []\<rparr>)"
  using assms
proof (induction rest arbitrary: s)
  case Nil
  then have "s\<lparr>emitted := emitted s @ secondPass fs [], coord := Checking []\<rparr> = s" by simp
  then show ?case by simp
next
  case (Cons d rest)
  let ?s1 = "s\<lparr>emitted := emitted s @ (if fst (isDirEmpty fs d) then [EmptyFolder d] else []),
                 coord := Checking rest\<rparr>"
  have "step fs s ?s1"
    using Cons.prems by (rule step.check)
  moreover have "(step fs)\<^sup>*\<^sup>* ?s1
      (?s1\<lparr>emitted := emitted ?s1 @ secondPass fs rest, coord := Checking []\<rparr>)"
    by (intro Cons.IH) simp
  ultimately show ?case by simp
qed

lemma run_second_pass:
  assumes "coord s = Waiting" "list_all (\<lambda>w. w = Exited) (workers s)"
  shows "(step fs)\<^sup>*\<^sup>* s
           (s\<lparr>emitted := emitted s @ secondPass fs (studioDirs s), coord := Returned\<rparr>)"
proof -
  let ?s1 = "s\<lparr>coord := Checking (studioDirs s)\<rparr>"
  let ?s2 = "?s1\<lparr>emitted := emitted ?s1 @ secondPass fs (studioDirs s), coord := Checking []\<rparr>"
  let ?s3 = "?s2\<lparr>coord := Returned\<rparr>"
  have "step fs s ?s1" using assms by (rule step.wait)
  moreover have "(step fs)\<^sup>*\<^sup>* ?s1 ?s2" by (rule run_checks) simp
  moreover have "step fs ?s2 ?s3" by (rule step.return) simp
  moreover have "?s3 = s\<lparr>emitted := emitted s @ secondPass fs (studioDirs s), coord := Returned\<rparr>"
    by simp
  ultimately show ?thesis
    by (auto intro: converse_rtranclp_into_rtranclp rtranclp.rtrancl_into_rtrancl)
qed

lemma run_fill_and_close:
  "(step fs)\<^sup>*\<^sup>* (initial dirs n done)
     ((initial dirs n done)\<lparr>studioChan := dirs, closed := True, coord := Waiting\<rparr>)"
proof -
  let ?s0 = "initial dirs n done"
  let ?s1 = "?s0\<lparr>studioChan := studioChan ?s0 @ dirs, coord := Sending []\<rparr>"
  have "(step fs)\<^sup>*\<^sup>* ?s0 ?s1"
    by (rule run_sends) (simp_all add: initial_def)
  moreover have "step fs ?s1 (?s1\<lparr>closed := True, coord := Waiting\<rparr>)"
    by (rule step.close) simp
  moreover have "?s1\<lparr>closed := True, coord := Waiting\<rparr>
      = ?s0\<lparr>studioChan := dirs, closed := True, coord := Waiting\<rparr>"
    by (simp add: initial_def)
  ultimately show ?thesis
    by (auto intro: rtranclp.rtrancl_into_rtrancl)
qed

lemma run_in_order_state:
  assumes "1 \<le> n"
  shows "(step fs)\<^sup>*\<^sup>* (initial dirs n done)
           (returned_state dirs [] n
              (done @ concat (map (processStudio fs) dirs) @ secondPass fs dirs))"
proof -
  from assms have "0 < nat n" by simp
  then obtain m where m: "nat n = Suc m"
    by (cases "nat n") simp_all
  let ?s0 = "initial dirs n done"
  let ?s1 = "?s0\<lparr>studioChan := dirs, closed := True, coord := Waiting\<rparr>"
  let ?s2 = "?s1\<lparr>studioChan := [], emitted := emitted ?s1 @ concat (map (processStudio fs) dirs)\<rparr>"
  let ?s3 = "?s2\<lparr>workers := replicate (0 + nat n) Exited\<rparr>"
  let ?s4 = "?s3\<lparr>emitted := emitted ?s3 @ secondPass fs (studioDirs ?s3), coord := Returned\<rparr>"
  have "(step fs)\<^sup>*\<^sup>* ?s0 ?s1" by (rule run_fill_and_close)
  moreover have "(step fs)\<^sup>*\<^sup>* ?s1 ?s2"
    by (rule run_queue [where ws = "[]" and ws' = "replicate m Idle"]) (simp_all add: initial_def m)
  moreover have "(step fs)\<^sup>*\<^sup>* ?s2 ?s3"
    by (rule run_exits) (simp_all add: initial_def)
  moreover have "(step fs)\<^sup>*\<^sup>* ?s3 ?s4"
    by (rule run_second_pass) (simp_all add: list_all_iff)
  ultimately have "(step fs)\<^sup>*\<^sup>* ?s0 ?s4" by simp
  moreover have "?s4 = returned_state dirs [] n
      (done @ concat (map (processStudio fs) dirs) @ secondPass fs dirs)"
    by (simp add: initial_def returned_state_def)
  ultimately show ?thesis by simp
qed

lemma run_in_order:
  assumes "1 \<le> n"
  shows "\<exists>s. (step fs)\<^sup>*\<^sup>* (initial dirs n done) s \<and> coord s = Returned \<and>
             emitted s = done @ concat (map (processStudio fs) dirs) @ secondPass fs dirs"
proof (intro exI conjI)
  show "(step fs)\<^sup>*\<^sup>* (initial dirs n done)
      (returned_state dirs [] n
         (done @ concat (map (processStudio fs) dirs) @ secondPass fs dirs))"
    by (rule run_in_order_state [OF assms])
qed (simp_all add: returned_state_def)

lemma run_no_workers_state:
  assumes "n \<le> 0"
  shows "(step fs)\<^sup>*\<^sup>* (initial dirs n done)
           (returned_state dirs dirs n (done @ secondPass fs dirs))"
proof -
  let ?s0 = "initial dirs n done"
  let ?s1 = "?s0\<lparr>studioChan := dirs, closed := True, coord := Waiting\<rparr>"
  let ?s4 = "?s1\<lparr>emitted := emitted ?s1 @ secondPass fs (studioDirs ?s1), coord := Returned\<rparr>"
  have "(step fs)\<^sup>*\<^sup>* ?s0 ?s1" by (rule run_fill_and_close)
  moreover have "(step fs)\<^sup>*\<^sup>* ?s1 ?s4"
    using assms by (intro run_second_pass) (simp_all add: initial_def)
  ultimately have "(step fs)\<^sup>*\<^sup>* ?s0 ?s4" by simp
  moreover have "?s4 = returned_state dirs dirs n (done @ secondPass fs dirs)"
    using assms by (simp add: initial_def returned_state_def)
  ultimately show ?thesis by simp
qed

lemma run_no_workers:
  assumes "n \<le> 0"
  shows "\<exists>s. (step fs)\<^sup>*\<^sup>* (initial dirs n done) s \<and> coord s = Returned \<and>
             emitted s = done @ secondPass fs dirs"
proof (intro exI conjI)
  show "(step fs)\<^sup>*\<^sup>* (initial dirs n done)
      (returned_state dirs dirs n (done @ secondPass fs dirs))"
    by (rule run_no_workers_state [OF assms])
qed (simp_all add: returned_state_def)

text \<open>
  With two workers or more the order is not determined: the second studio directory of
  the channel can be finished before the first.
\<close>

lemma run_swapped_state:
  assumes "2 \<le> n"
  shows "(step fs)\<^sup>*\<^sup>* (initial (d1 # d2 # dirs) n done)
           (returned_state (d1 # d2 # dirs) [] n
              (done @ processStudio fs d2 @ processStudio fs d1
               @ concat (map (processStudio fs) dirs) @ secondPass fs (d1 # d2 # dirs)))"
proof -
  define m where "m = nat n - 2"
  have m: "nat n = Suc (Suc m)"
    using assms by (simp add: m_def)
  define idle where "idle = replicate m Idle"
  define S where "S c ch ws em =
    \<lparr>coord = c, studioChan = ch, capacity = Suc (Suc (length dirs)), closed = True,
     workers = ws, emitted = em, studioDirs = d1 # d2 # dirs\<rparr>" for c ch ws em
  define P where "P = processStudio fs"
  have idle: "replicate (nat n) Idle = Idle # Idle # idle"
    by (simp add: m idle_def)
  have "(step fs)\<^sup>*\<^sup>* (initial (d1 # d2 # dirs) n done)
      (S Waiting (d1 # d2 # dirs) (Idle # Idle # idle) done)"
    using run_fill_and_close [of fs "d1 # d2 # dirs" n "done"]
    by (simp add: S_def initial_def idle)
  also have "step fs (S Waiting (d1 # d2 # dirs) (Idle # Idle # idle) done)
      (S Waiting (d2 # dirs) (Busy (P d1) # Idle # idle) done)"
    using step.receive [of "S Waiting (d1 # d2 # dirs) (Idle # Idle # idle) done" "[]" "Idle # idle"
        d1 "d2 # dirs" fs]
    by (simp add: S_def P_def)
  also have "(step fs)\<^sup>*\<^sup>* (S Waiting (d2 # dirs) (Busy (P d1) # Idle # idle) done)
      (S Waiting dirs (Busy (P d1) # Idle # idle) (done @ P d2))"
    using run_studio [of "S Waiting (d2 # dirs) (Busy (P d1) # Idle # idle) done" "[Busy (P d1)]" idle
        d2 dirs fs]
    by (simp add: S_def P_def)
  also have "(step fs)\<^sup>*\<^sup>* (S Waiting dirs (Busy (P d1) # Idle # idle) (done @ P d2))
      (S Waiting dirs (Busy [] # Idle # idle) (done @ P d2 @ P d1))"
    using run_emits [of "S Waiting dirs (Busy (P d1) # Idle # idle) (done @ P d2)" "[]" "P d1"
        "Idle # idle" fs]
    by (simp add: S_def)
  also have "step fs (S Waiting dirs (Busy [] # Idle # idle) (done @ P d2 @ P d1))
      (S Waiting dirs (Idle # Idle # idle) (done @ P d2 @ P d1))"
    using step.finish [of "S Waiting dirs (Busy [] # Idle # idle) (done @ P d2 @ P d1)" "[]"
        "Idle # idle" fs]
    by (simp add: S_def)
  also have "(step fs)\<^sup>*\<^sup>* (S Waiting dirs (Idle # Idle # idle) (done @ P d2 @ P d1))
      (S Waiting [] (Idle # Idle # idle) (done @ P d2 @ P d1 @ concat (map P dirs)))"
    using run_queue [of "S Waiting dirs (Idle # Idle # idle) (done @ P d2 @ P d1)" "[]"
        "Idle # idle" dirs fs]
    by (simp add: S_def P_def)
  also have "(step fs)\<^sup>*\<^sup>*
      (S Waiting [] (Idle # Idle # idle) (done @ P d2 @ P d1 @ concat (map P dirs)))
      (S Waiting [] (replicate (nat n) Exited) (done @ P d2 @ P d1 @ concat (map P dirs)))"
    using run_exits [of "S Waiting [] (Idle # Idle # idle) (done @ P d2 @ P d1 @ concat (map P dirs))"
        0 "nat n" fs]
    by (simp add: S_def idle)
  also have "(step fs)\<^sup>*\<^sup>*
      (S Waiting [] (replicate (nat n) Exited) (done @ P d2 @ P d1 @ concat (map P dirs)))
      (S Returned [] (replicate (nat n) Exited)
         (done @ P d2 @ P d1 @ concat (map P dirs) @ secondPass fs (d1 # d2 # dirs)))"
    using run_second_pass
      [of "S Waiting [] (replicate (nat n) Exited) (done @ P d2 @ P d1 @ concat (map P dirs))" fs]
    by (simp add: S_def list_all_iff)
  finally have "(step fs)\<^sup>*\<^sup>* (initial (d1 # d2 # dirs) n done)
      (S Returned [] (replicate (nat n) Exited)
         (done @ P d2 @ P d1 @ concat (map P dirs) @ secondPass fs (d1 # d2 # dirs)))" .
  then show ?thesis
    by (simp add: S_def P_def returned_state_def)
qed

section \<open>What a scan can return\<close>

lemma collectStudioDirs_eq:
  "collectStudioDirs libraryPath entries acc =
     acc @ map (\<lambda>e. Join libraryPath (Name e)) (filter IsDir entries)"
  by (induction entries arbitrary: acc) simp_all

lemma step_workers_length: "step fs s s' \<Longrightarrow> length (workers s') = length (workers s)"
  by (induction rule: step.induct) simp_all

lemma reachable_workers_length:
  "(step fs)\<^sup>*\<^sup>* (initial dirs n done) s \<Longrightarrow> length (workers s) = nat n"
  by (induction rule: rtranclp_induct) (simp_all add: initial_def step_workers_length)

lemma remaining_all_Exited:
  "list_all (\<lambda>w. w = Exited) ws \<Longrightarrow> sum_list (map (\<lambda>w. mset (remaining w)) ws) = {#}"
  by (induction ws) simp_all

lemma reaches_return:
  assumes "pool_inv fs dirs done W P taken s"
  shows "\<exists>s'. (step fs)\<^sup>*\<^sup>* s s' \<and> coord s' = Returned"
  using wf_step [of fs] assms
proof (induction s arbitrary: W P taken rule: wf_induct_rule)
  case (less s)
  show ?case
  proof (cases "coord s = Returned")
    case True
    then show ?thesis by blast
  next
    case False
    with less.prems obtain s1 where s1: "step fs s s1"
      using pool_progress by blast
    with less.prems obtain W1 P1 taken1 where "pool_inv fs dirs done W1 P1 taken1 s1"
      using pool_inv_step by blast
    with s1 less.IH [of s1] obtain s' where "(step fs)\<^sup>*\<^sup>* s1 s'" "coord s' = Returned"
      by blast
    with s1 show ?thesis
      by (blast intro: converse_rtranclp_into_rtranclp)
  qed
qed

text \<open>What a returned scan has appended.\<close>

lemma returned_emitted:
  assumes reach: "(step fs)\<^sup>*\<^sup>* (initial dirs n done) s" and ret: "coord s = Returned"
  shows "\<exists>W. emitted s = done @ W @ secondPass fs dirs \<and>
             (1 \<le> n \<longrightarrow> mset W = sum_list (map (work fs) dirs)) \<and>
             (n \<le> 0 \<longrightarrow> W = [])"
proof -
  from reach obtain W P taken where inv: "pool_inv fs dirs done W P taken s"
    using pool_inv_reachable by blast
  from reach have len: "length (workers s) = nat n"
    by (rule reachable_workers_length)
  from inv ret have em: "emitted s = done @ W @ secondPass fs dirs"
    and ex: "list_all (\<lambda>w. w = Exited) (workers s)"
    and total: "mset W + in_flight fs s = sum_list (map (work fs) dirs)"
    and chan: "Exited \<in> set (workers s) \<longrightarrow> studioChan s = []"
    and none: "workers s = [] \<longrightarrow> W = []"
    by (simp_all add: pool_inv_def)
  have "mset W = sum_list (map (work fs) dirs)" if "1 \<le> n"
  proof -
    from that len have "workers s \<noteq> []" by auto
    then obtain w where "w \<in> set (workers s)" by (cases "workers s") auto
    with ex have "Exited \<in> set (workers s)" by (auto simp: list_all_iff)
    with chan have "studioChan s = []" by simp
    with ex have "in_flight fs s = {#}"
      by (simp add: in_flight_def remaining_all_Exited)
    with total show ?thesis by simp
  qed
  moreover have "W = []" if "n \<le> 0"
    using that len none by simp
  ultimately show ?thesis using em by blast
qed

lemma scanInOrder_possible: "scanLibrary fs libraryPath numWorkers (scanInOrder fs libraryPath numWorkers)"
proof (cases "Stat fs libraryPath")
  case (Inl err)
  then show ?thesis by (simp add: scanLibrary_def scanInOrder_def)
next
  case (Inr isDir)
  show ?thesis
  proof (cases "isDir")
    case False
    with Inr show ?thesis by (simp add: scanLibrary_def scanInOrder_def)
  next
    case True
    show ?thesis
    proof (cases "ReadDir fs libraryPath")
      case (Inl err)
      with \<open>Stat fs libraryPath = Inr isDir\<close> True show ?thesis
        by (simp add: scanLibrary_def scanInOrder_def)
    next
      case (Inr studioEntries)
      let ?dirs = "collectStudioDirs libraryPath studioEntries []"
      let ?done = "checkDirectChildren fs libraryPath ''library''"
      have io: "scanInOrder fs libraryPath numWorkers =
          ?done @ (if 1 \<le> numWorkers then concat (map (processStudio fs) ?dirs) else [])
          @ secondPass fs ?dirs"
        using \<open>Stat fs libraryPath = Inr isDir\<close> True Inr by (simp add: scanInOrder_def Let_def)
      have "\<exists>s. (step fs)\<^sup>*\<^sup>* (initial ?dirs numWorkers ?done) s \<and> coord s = Returned \<and>
          scanInOrder fs libraryPath numWorkers = emitted s"
      proof (cases "1 \<le> numWorkers")
        case True
        with run_in_order [of numWorkers fs ?dirs ?done] io show ?thesis by auto
      next
        case False
        then have "numWorkers \<le> 0" by simp
        with run_no_workers [of numWorkers fs ?dirs ?done] io False show ?thesis by auto
      qed
      with \<open>Stat fs libraryPath = Inr isDir\<close> True Inr show ?thesis
        by (simp add: scanLibrary_def)
    qed
  qed
qed

lemma mset_concat_work:
  "mset (concat (map (processStudio fs) dirs)) = sum_list (map (work fs) dirs)"
  by (induction dirs) (simp_all add: work_def)

lemma scanLibrary_outcome:
  assumes "scanLibrary fs libraryPath numWorkers es"
  shows "(1 \<le> numWorkers \<longrightarrow> mset es = mset (scanInOrder fs libraryPath numWorkers)) \<and>
         (numWorkers \<le> 0 \<longrightarrow> es = scanInOrder fs libraryPath numWorkers)"
proof (cases "Stat fs libraryPath")
  case (Inl err)
  with assms show ?thesis by (simp add: scanLibrary_def scanInOrder_def)
next
  case (Inr isDir)
  show ?thesis
  proof (cases "isDir")
    case False
    with assms Inr show ?thesis by (simp add: scanLibrary_def scanInOrder_def)
  next
    case True
    show ?thesis
    proof (cases "ReadDir fs libraryPath")
      case (Inl err)
      with assms Inr True show ?thesis by (simp add: scanLibrary_def scanInOrder_def)
    next
      case (Inr studioEntries)
      let ?dirs = "collectStudioDirs libraryPath studioEntries []"
      let ?done = "checkDirectChildren fs libraryPath ''library''"
      from assms \<open>Stat fs libraryPath = Inr isDir\<close> True Inr obtain s where
        s: "(step fs)\<^sup>*\<^sup>* (initial ?dirs numWorkers ?done) s" "coord s = Returned" "es = emitted s"
        by (auto simp: scanLibrary_def)
      then obtain W where W: "emitted s = ?done @ W @ secondPass fs ?dirs"
        "1 \<le> numWorkers \<longrightarrow> mset W = sum_list (map (work fs) ?dirs)"
        "numWorkers \<le> 0 \<longrightarrow> W = []"
        using returned_emitted by blast
      have io: "scanInOrder fs libraryPath numWorkers =
          ?done @ (if 1 \<le> numWorkers then concat (map (processStudio fs) ?dirs) else [])
          @ secondPass fs ?dirs"
        using \<open>Stat fs libraryPath = Inr isDir\<close> True Inr by (simp add: scanInOrder_def Let_def)
      show ?thesis
        using s(3) W io by (auto simp: mset_concat_work)
    qed
  qed
qed

lemma mset_orphanedFoldersOf:
  "mset (orphanedFoldersOf es) =
     (\<Sum>e \<in># mset es. mset (case e of OrphanedFolder p \<Rightarrow> [p] | _ \<Rightarrow> []))"
  by (induction es) (auto split: emission.splits)

lemma mset_orphanedFilesOf:
  "mset (orphanedFilesOf es) =
     (\<Sum>e \<in># mset es. mset (case e of OrphanedFile p \<Rightarrow> [p] | _ \<Rightarrow> []))"
  by (induction es) (auto split: emission.splits)

lemma mset_emptyFoldersOf:
  "mset (emptyFoldersOf es) =
     (\<Sum>e \<in># mset es. mset (case e of EmptyFolder p \<Rightarrow> [p] | _ \<Rightarrow> []))"
  by (induction es) (auto split: emission.splits)

lemma mset_warningsOf:
  "mset (warningsOf es) =
     (\<Sum>e \<in># mset es. mset (case e of StructureWarning w \<Rightarrow> [w] | _ \<Rightarrow> []))"
  by (induction es) (auto split: emission.splits)

lemma mset_commit:
  assumes "mset es = mset es'"
  shows "mset (OrphanedFolders (commit es r)) = mset (OrphanedFolders (commit es' r))"
    and "mset (OrphanedFiles (commit es r)) = mset (OrphanedFiles (commit es' r))"
    and "mset (EmptyFolders (commit es r)) = mset (EmptyFolders (commit es' r))"
    and "mset (StructureWarnings (commit es r)) = mset (StructureWarnings (commit es' r))"
  using assms
  by (simp_all add: OrphanedFolders_commit OrphanedFiles_commit EmptyFolders_commit
      StructureWarnings_commit mset_orphanedFoldersOf mset_orphanedFilesOf mset_emptyFoldersOf
      mset_warningsOf)

section \<open>The off-level file check on a readable directory\<close>

lemma Base_Join:
  assumes "entryName name"
  shows "Base (Join dir name) = name"
proof -
  from assms have ne: "name \<noteq> []" and ns: "CHR ''/'' \<notin> set name"
    by (simp_all add: entryName_def)
  have "dropWhile (\<lambda>c. c = CHR ''/'') (rev name @ CHR ''/'' # rev dir) = rev name @ CHR ''/'' # rev dir"
    using ne ns by (cases "rev name") (auto simp: rev_is_Nil_conv)
  moreover have "takeWhile (\<lambda>c. c \<noteq> CHR ''/'') (rev name @ CHR ''/'' # rev dir) = rev name"
    using ns by (subst takeWhile_append2) auto
  ultimately show ?thesis
    using ne by (simp add: Base_def Join_def Let_def)
qed

lemma videoBasenamesOf_Nil: "videoBasenamesOf [] = {}"
  by (simp add: videoBasenamesOf_def)

lemma videoBasenamesOf_Cons:
  "videoBasenamesOf (e # entries) =
     (if isVideoFile e then insert (lowerBasename (Name e)) (videoBasenamesOf entries)
      else videoBasenamesOf entries)"
  by (auto simp: videoBasenamesOf_def)

lemma collectFiles_eq:
  "collectFiles dirPath entries files vb =
     (files @ map (\<lambda>e. Join dirPath (Name e)) (filter (\<lambda>e. \<not> IsDir e) entries),
      vb \<union> videoBasenamesOf entries)"
proof (induction entries arbitrary: files vb)
  case Nil
  show ?case by (simp add: videoBasenamesOf_Nil)
next
  case (Cons e entries)
  show ?case
    by (simp add: Cons.IH Let_def videoBasenamesOf_Cons isVideoFile_def lowerBasename_def)
qed

lemma checkDirectChildren_readable:
  assumes "ReadDir fs dirPath = Inr entries"
  shows "checkDirectChildren fs dirPath level =
     map (\<lambda>e. categorize level (videoBasenamesOf entries) (Join dirPath (Name e)))
       (filter (\<lambda>e. \<not> IsDir e) entries)"
  using assms by (simp add: checkDirectChildren_def collectFiles_eq comp_def)

lemma categorize_entry:
  assumes "entryName name"
  shows "categorize level vb (Join dirPath name) =
     (if videoExtensions (ToLower (Ext name))
      then StructureWarning (VideoAtLevel level (Join dirPath name))
      else if \<exists>videoBase \<in> vb. prefix videoBase (ToLower (TrimSuffix name (ToLower (Ext name))))
      then StructureWarning (MetadataAtLevel level (Join dirPath name))
      else OrphanedFile (Join dirPath name))"
  using assms by (simp add: categorize_def Base_Join Let_def HasPrefix_def)

lemma emission_path_categorize [simp]:
  "emission_path (categorize level vb filePath) = filePath"
  by (simp add: categorize_def Let_def)

lemma categorize_cases:
  "categorize level vb filePath = StructureWarning (VideoAtLevel level filePath) \<or>
   categorize level vb filePath = StructureWarning (MetadataAtLevel level filePath) \<or>
   categorize level vb filePath = OrphanedFile filePath"
  by (simp add: categorize_def Let_def)

lemma mem_checkDirectChildren:
  assumes "ReadDir fs dirPath = Inr entries"
  shows "x \<in> set (checkDirectChildren fs dirPath level) \<longleftrightarrow>
     (\<exists>e \<in> set entries. \<not> IsDir e \<and>
        x = categorize level (videoBasenamesOf entries) (Join dirPath (Name e)))"
  by (auto simp: checkDirectChildren_readable [OF assms])

lemma OrphanedFile_categorize:
  "categorize level vb filePath = OrphanedFile p \<longleftrightarrow>
     p = filePath \<and> categorize level vb filePath = OrphanedFile filePath"
  using emission_path_categorize [of level vb filePath] by (metis emission_path.simps(2))


lemma ExtFrom_cases:
  "ExtFrom cs seen = [] \<or> (\<exists>k. ExtFrom cs seen = rev (take k cs) @ seen)"
proof (induction cs arbitrary: seen)
  case Nil
  show ?case by simp
next
  case (Cons c cs)
  show ?case
  proof (cases "c = CHR ''/''")
    case True
    then show ?thesis by simp
  next
    case slash: False
    show ?thesis
    proof (cases "c = CHR ''.''")
      case True
      then have "ExtFrom (c # cs) seen = rev (take 1 (c # cs)) @ seen"
        by simp
      then show ?thesis by blast
    next
      case False
      from Cons.IH [of "c # seen"] show ?thesis
      proof
        assume "ExtFrom cs (c # seen) = []"
        with slash False show ?thesis by simp
      next
        assume "\<exists>k. ExtFrom cs (c # seen) = rev (take k cs) @ c # seen"
        then obtain k where "ExtFrom cs (c # seen) = rev (take k cs) @ c # seen" ..
        with slash False have "ExtFrom (c # cs) seen = rev (take (Suc k) (c # cs)) @ seen"
          by simp
        then show ?thesis by blast
      qed
    qed
  qed
qed

lemma Ext_suffix: "suffix (Ext p) p"
proof -
  from ExtFrom_cases [of "rev p" "[]"] show ?thesis
  proof
    assume "ExtFrom (rev p) [] = []"
    then show ?thesis by (simp add: Ext_def)
  next
    assume "\<exists>k. ExtFrom (rev p) [] = rev (take k (rev p)) @ []"
    then obtain k where "Ext p = rev (take k (rev p))"
      by (auto simp: Ext_def)
    moreover have "suffix (rev (take k (rev p))) p"
      by (metis suffix_to_prefix rev_rev_ident take_is_prefix)
    ultimately show ?thesis by simp
  qed
qed

lemma TrimSuffix_Ext: "TrimSuffix name (Ext name) = take (length name - length (Ext name)) name"
  by (simp add: TrimSuffix_def HasSuffix_def Ext_suffix)

lemma basename_prefix:
  "prefix (lowerBasename name) (ToLower (TrimSuffix name (ToLower (Ext name))))"
proof -
  have "prefix (TrimSuffix name (Ext name)) (TrimSuffix name (ToLower (Ext name)))"
    by (simp add: TrimSuffix_Ext) (simp add: TrimSuffix_def ToLower_def take_is_prefix)
  then show ?thesis
    by (auto simp: lowerBasename_def ToLower_def prefix_def)
qed

text \<open>
  What the off-level check does in a directory that is read and whose entries have
  proper names. The basename it matches is not \<open>lowerBasename\<close>: the second pass strips
  the lowercased extension, which is a suffix of the name only if the extension has no
  upper-case letter.
\<close>

lemma off_level_classification:
  assumes "ReadDir fs dirPath = Inr entries"
    and "list_all (\<lambda>e. entryName (Name e)) entries"
  shows "checkDirectChildren fs dirPath level =
     map (\<lambda>e. if isVideoFile e
               then StructureWarning (VideoAtLevel level (Join dirPath (Name e)))
               else if \<exists>videoBase \<in> videoBasenamesOf entries.
                         HasPrefix (ToLower (TrimSuffix (Name e) (ToLower (Ext (Name e)))))
                           videoBase
               then StructureWarning (MetadataAtLevel level (Join dirPath (Name e)))
               else OrphanedFile (Join dirPath (Name e)))
       (filter (\<lambda>e. \<not> IsDir e) entries)"
  unfolding checkDirectChildren_readable [OF assms(1)]
  using assms(2)
  by (intro map_cong) (auto simp: categorize_entry isVideoFile_def HasPrefix_def list_all_iff)

lemma matched_file_warned:
  assumes "HasPrefix (lowerBasename name) videoBase"
  shows "HasPrefix (ToLower (TrimSuffix name (ToLower (Ext name)))) videoBase"
  using assms basename_prefix [of name] by (auto simp: HasPrefix_def)

lemma lowercase_extension_basename:
  assumes "ToLower (Ext name) = Ext name"
  shows "ToLower (TrimSuffix name (ToLower (Ext name))) = lowerBasename name"
  using assms by (simp add: lowerBasename_def)

section \<open>Evaluating the examples\<close>

lemma entry_simps:
  "Name (file_entry n) = n" "IsDir (file_entry n) = False"
  "Name (dir_entry n) = n" "IsDir (dir_entry n) = True"
  by (simp_all add: file_entry_def dir_entry_def)

lemmas example_defs =
  library_fs_def dotfile_fs_def uppercase_fs_def tree_fs_def file_entry_def dir_entry_def

lemmas string_defs =
  ToLower_def lowerByte_def HasPrefix_def HasSuffix_def TrimSuffix_def Ext_def Base_def Join_def
  suffix_to_prefix videoExtensions_def

lemmas title_defs =
  processTitleFolder_def isMetadataSubdir_def metadataSubdirSuffixes_def isVideoFile_def

lemmas offlevel_defs =
  checkDirectChildren_def categorize_def

lemmas scan_defs =
  scanInOrder_def processStudio_def isDirEmpty_def

lemma library_fs_root:
  "Stat library_fs ''lib'' = Inr True"
  "ReadDir library_fs ''lib'' =
     Inr [dir_entry ''Locked'', dir_entry ''StudioA'', dir_entry ''StudioB'', file_entry ''readme.txt'']"
  "collectStudioDirs ''lib''
     [dir_entry ''Locked'', dir_entry ''StudioA'', dir_entry ''StudioB'', file_entry ''readme.txt''] []
   = [''lib/Locked'', ''lib/StudioA'', ''lib/StudioB'']"
  by (simp_all add: library_fs_def tree_fs_def entry_simps Join_def)

lemma library_fs_emissions:
  "checkDirectChildren library_fs ''lib'' ''library'' = [OrphanedFile ''lib/readme.txt'']"
  "processStudio library_fs ''lib/Locked''
     = [StructureWarning (CannotReadStudio ''lib/Locked'' ''permission denied'')]"
  "processStudio library_fs ''lib/StudioA''
     = [OrphanedFile ''lib/StudioA/deleted.nfo'',
        StructureWarning (VideoAtLevel ''studio'' ''lib/StudioA/movie.mkv''),
        StructureWarning (MetadataAtLevel ''studio'' ''lib/StudioA/movie2.nfo''),
        StructureWarning (CannotReadTitle ''lib/StudioA/Gone'' ''permission denied''),
        StructureWarning (UnexpectedSubdir ''lib/StudioA/Movie1/extras''),
        StructureWarning (UnexpectedSubdir ''lib/StudioA/Movie2/extras''),
        OrphanedFolder ''lib/StudioA/Movie2'',
        EmptyFolder ''lib/StudioA/Movie3'']"
  "processStudio library_fs ''lib/StudioB'' = []"
  "secondPass library_fs [''lib/Locked'', ''lib/StudioA'', ''lib/StudioB'']
     = [EmptyFolder ''lib/StudioB'']"
  by (simp_all add: example_defs scan_defs offlevel_defs title_defs string_defs)

section \<open>Empty Folder emissions\<close>

lemma EmptyFolder_notin_checkDirectChildren:
  "EmptyFolder q \<notin> set (checkDirectChildren fs dirPath level)"
proof (cases "ReadDir fs dirPath")
  case (Inl err)
  then show ?thesis by (simp add: checkDirectChildren_def)
next
  case (Inr entries)
  have "categorize level (videoBasenamesOf entries) p \<noteq> EmptyFolder q" for p
    using categorize_cases [of level "videoBasenamesOf entries" p] by auto
  then show ?thesis
    unfolding mem_checkDirectChildren [OF Inr] by metis
qed

lemma EmptyFolder_processTitleFolder:
  "EmptyFolder q \<in> set (processTitleFolder fs titlePath) \<Longrightarrow> q = titlePath"
  by (cases "ReadDir fs titlePath")
     (auto simp: processTitleFolder_def Let_def split: if_splits prod.splits)

lemma EmptyFolder_processTitleEntries:
  "EmptyFolder q \<in> set (processTitleEntries fs studioPath entries) \<Longrightarrow>
     \<exists>name. q = Join studioPath name"
  by (induction entries) (auto split: if_splits dest: EmptyFolder_processTitleFolder)

lemma EmptyFolder_processStudio:
  "EmptyFolder q \<in> set (processStudio fs studioPath) \<Longrightarrow> \<exists>name. q = Join studioPath name"
  by (cases "ReadDir fs studioPath")
     (auto simp: processStudio_def EmptyFolder_notin_checkDirectChildren
       dest: EmptyFolder_processTitleEntries)

lemma Join_Join_neq:
  assumes "CHR ''/'' \<notin> set name"
  shows "Join (Join dir name') sub \<noteq> Join dir name"
proof
  assume "Join (Join dir name') sub = Join dir name"
  then have "name = name' @ ''/'' @ sub"
    by (simp add: Join_def)
  with assms show False by simp
qed

lemma set_collectStudioDirs:
  "set (collectStudioDirs libraryPath entries []) =
     (\<lambda>e. Join libraryPath (Name e)) ` {e \<in> set entries. IsDir e}"
  by (auto simp: collectStudioDirs_eq)

lemma EmptyFolder_secondPass:
  "EmptyFolder q \<in> set (secondPass fs dirs) \<longleftrightarrow> q \<in> set dirs \<and> ReadDir fs q = Inr []"
  by (induction dirs) (auto simp: isDirEmpty_def split: sum.splits)

lemma set_mset_work:
  "set_mset (sum_list (map (work fs) dirs)) = (\<Union>d \<in> set dirs. set (processStudio fs d))"
  by (induction dirs) (auto simp: work_def)

lemma pool_inv_workers_emitted:
  assumes "pool_inv fs dirs done W P taken s"
  shows "set W \<subseteq> (\<Union>d \<in> set dirs. set (processStudio fs d))"
proof -
  have "\<exists>X. mset W + X = sum_list (map (work fs) dirs)"
  proof (cases "coord s")
    case (Sending rest)
    with assms have "mset W + (in_flight fs s + sum_list (map (work fs) rest))
        = sum_list (map (work fs) dirs)"
      by (simp add: pool_inv_def add.assoc)
    then show ?thesis ..
  next
    case Waiting
    with assms have "mset W + in_flight fs s = sum_list (map (work fs) dirs)"
      by (simp add: pool_inv_def)
    then show ?thesis ..
  next
    case (Checking rest)
    with assms have "mset W + in_flight fs s = sum_list (map (work fs) dirs)"
      by (simp add: pool_inv_def)
    then show ?thesis ..
  next
    case Returned
    with assms have "mset W + in_flight fs s = sum_list (map (work fs) dirs)"
      by (simp add: pool_inv_def)
    then show ?thesis ..
  qed
  then obtain X where "mset W + X = sum_list (map (work fs) dirs)" ..
  then have "set_mset (mset W) \<subseteq> set_mset (sum_list (map (work fs) dirs))"
    by (metis set_mset_mono mset_subset_eq_add_left)
  then show ?thesis
    by (simp only: set_mset_work set_mset_mset)
qed

section \<open>Paths: every one at most once\<close>

lemma Join_inject [simp]: "Join dir a = Join dir b \<longleftrightarrow> a = b"
  by (simp add: Join_def)

lemma Join_neq_dir [simp]: "Join dir a \<noteq> dir" "dir \<noteq> Join dir a"
  by (simp_all add: Join_def)






subsection \<open>A title folder\<close>







subsection \<open>A studio directory\<close>












subsection \<open>A library root\<close>





















section \<open>The claims\<close>

text \<open>
  C1. A title folder whose directory read succeeds has exactly one of three outcomes.
  With no entry, its path is appended once to \<open>EmptyFolders\<close> and \<open>OrphanedFolders\<close>
  is left as it was. With at least one entry and no video file among them (whatever the
  entries are), its path is appended once to \<open>OrphanedFolders\<close> and \<open>EmptyFolders\<close> is
  left as it was. With a video file, neither sequence changes.
\<close>

theorem title_folder_three_outcomes:
  assumes "ReadDir fs titlePath = Inr entries"
    and "r' = commit (processTitleFolder fs titlePath) r"
  shows "(entries = [] \<longrightarrow>
            EmptyFolders r' = EmptyFolders r @ [titlePath] \<and>
            OrphanedFolders r' = OrphanedFolders r)
       \<and> (entries \<noteq> [] \<and> \<not> (\<exists>e \<in> set entries. isVideoFile e) \<longrightarrow>
            OrphanedFolders r' = OrphanedFolders r @ [titlePath] \<and>
            EmptyFolders r' = EmptyFolders r)
       \<and> ((\<exists>e \<in> set entries. isVideoFile e) \<longrightarrow>
            OrphanedFolders r' = OrphanedFolders r \<and>
            EmptyFolders r' = EmptyFolders r)"
  using assms
  by (auto simp: processTitleFolder_readable OrphanedFolders_commit EmptyFolders_commit)

theorem title_folder_three_outcomes_witness:
  "ReadDir library_fs ''lib/StudioA/Movie3'' = Inr []
   \<and> EmptyFolders (commit (processTitleFolder library_fs ''lib/StudioA/Movie3'') empty_result)
       = [''lib/StudioA/Movie3'']
   \<and> OrphanedFolders (commit (processTitleFolder library_fs ''lib/StudioA/Movie3'') empty_result)
       = []
   \<and> ReadDir library_fs ''lib/StudioA/Movie2'' = Inr [dir_entry ''extras'', file_entry ''poster.jpg'']
   \<and> \<not> isVideoFile (dir_entry ''extras'') \<and> \<not> isVideoFile (file_entry ''poster.jpg'')
   \<and> OrphanedFolders (commit (processTitleFolder library_fs ''lib/StudioA/Movie2'') empty_result)
       = [''lib/StudioA/Movie2'']
   \<and> EmptyFolders (commit (processTitleFolder library_fs ''lib/StudioA/Movie2'') empty_result)
       = []
   \<and> ReadDir library_fs ''lib/StudioA/Movie1''
       = Inr [dir_entry ''MOVIE.TRICKPLAY'', dir_entry ''extras'', file_entry ''movie.Mkv'',
              file_entry ''movie.nfo'']
   \<and> isVideoFile (file_entry ''movie.Mkv'')
   \<and> OrphanedFolders (commit (processTitleFolder library_fs ''lib/StudioA/Movie1'') empty_result)
       = []
   \<and> EmptyFolders (commit (processTitleFolder library_fs ''lib/StudioA/Movie1'') empty_result)
       = []"
proof -
  have r3: "ReadDir library_fs ''lib/StudioA/Movie3'' = Inr []"
    by (simp add: example_defs)
  have r2: "ReadDir library_fs ''lib/StudioA/Movie2''
      = Inr [dir_entry ''extras'', file_entry ''poster.jpg'']"
    by (simp add: example_defs)
  have r1: "ReadDir library_fs ''lib/StudioA/Movie1''
      = Inr [dir_entry ''MOVIE.TRICKPLAY'', dir_entry ''extras'', file_entry ''movie.Mkv'',
             file_entry ''movie.nfo'']"
    by (simp add: example_defs)
  have v: "\<not> isVideoFile (dir_entry ''extras'')" "\<not> isVideoFile (file_entry ''poster.jpg'')"
    "isVideoFile (file_entry ''movie.Mkv'')"
    by (simp_all add: isVideoFile_def example_defs string_defs)
  show ?thesis
    using title_folder_three_outcomes [OF r3 refl, of empty_result]
      title_folder_three_outcomes [OF r2 refl, of empty_result]
      title_folder_three_outcomes [OF r1 refl, of empty_result]
      r1 r2 r3 v
    by (simp add: empty_result_def)
qed

text \<open>
  C2, evaluated where the code departs from it. The directory holds the video
  \<open>trailer.HD.mkv\<close> and the file \<open>trailer.HD\<close>. The file is not a video, its lowercased
  basename is \<open>trailer\<close>, and the only video basename \<open>trailer.hd\<close> is not a prefix of
  it; the code nevertheless emits the Structure Warning for matched metadata and no
  Orphaned File, because the second pass strips the lowercased extension \<open>.hd\<close> from
  the name, which ends in \<open>.HD\<close>.
\<close>

theorem uppercase_extension_misclassified:
  "checkDirectChildren uppercase_fs ''lib'' ''library'' =
     [StructureWarning (MetadataAtLevel ''library'' ''lib/trailer.HD''),
      StructureWarning (VideoAtLevel ''library'' ''lib/trailer.HD.mkv'')]
   \<and> \<not> isVideoFile (file_entry ''trailer.HD'')
   \<and> lowerBasename ''trailer.HD'' = ''trailer''
   \<and> videoBasenamesOf [file_entry ''trailer.HD'', file_entry ''trailer.HD.mkv''] = {''trailer.hd''}
   \<and> \<not> HasPrefix ''trailer'' ''trailer.hd''"
proof -
  have "ReadDir uppercase_fs ''lib'' = Inr [file_entry ''trailer.HD'', file_entry ''trailer.HD.mkv'']"
    by (simp add: uppercase_fs_def tree_fs_def)
  then have "checkDirectChildren uppercase_fs ''lib'' ''library'' =
     [StructureWarning (MetadataAtLevel ''library'' ''lib/trailer.HD''),
      StructureWarning (VideoAtLevel ''library'' ''lib/trailer.HD.mkv'')]"
    by (simp add: checkDirectChildren_def entry_simps categorize_def string_defs)
  moreover have "videoBasenamesOf [file_entry ''trailer.HD'', file_entry ''trailer.HD.mkv'']
      = {''trailer.hd''}"
    by (simp add: videoBasenamesOf_Nil videoBasenamesOf_Cons isVideoFile_def lowerBasename_def
        entry_simps string_defs)
  moreover have "\<not> isVideoFile (file_entry ''trailer.HD'')" "lowerBasename ''trailer.HD'' = ''trailer''"
    "\<not> HasPrefix ''trailer'' ''trailer.hd''"
    by (simp_all add: isVideoFile_def lowerBasename_def entry_simps string_defs)
  ultimately show ?thesis by simp
qed

text \<open>
  C3. For a fixed directory tree, a scan with a worker count of at least one (the counts
  1, 4, 10, 20 and 50 among them) can return, and two such scans end with the same
  Orphaned Folders, Orphaned Files, Empty Folders and Structure Warnings: each sequence
  is the same multiset in both results, that is, the same entries with the same counts,
  whatever the order. That no scan blocks or runs forever is \<open>pool_progress\<close> and
  \<open>no_infinite_run\<close>.
\<close>

theorem worker_count_independent:
  assumes "1 \<le> n1" and "1 \<le> n2"
    and "scanLibrary fs libraryPath n1 es1" and "scanLibrary fs libraryPath n2 es2"
  shows "scanLibrary fs libraryPath n1 (scanInOrder fs libraryPath n1) \<and>
         scanLibrary fs libraryPath n2 (scanInOrder fs libraryPath n2) \<and>
         mset (OrphanedFolders (commit es1 r)) = mset (OrphanedFolders (commit es2 r)) \<and>
         mset (OrphanedFiles (commit es1 r)) = mset (OrphanedFiles (commit es2 r)) \<and>
         mset (EmptyFolders (commit es1 r)) = mset (EmptyFolders (commit es2 r)) \<and>
         mset (StructureWarnings (commit es1 r)) = mset (StructureWarnings (commit es2 r))"
proof -
  have same: "scanInOrder fs libraryPath n1 = scanInOrder fs libraryPath n2"
    using assms(1,2) by (simp add: scanInOrder_def split: sum.splits)
  have "mset es1 = mset (scanInOrder fs libraryPath n1)"
    using scanLibrary_outcome [OF assms(3)] assms(1) by blast
  moreover have "mset es2 = mset (scanInOrder fs libraryPath n2)"
    using scanLibrary_outcome [OF assms(4)] assms(2) by blast
  ultimately have "mset es1 = mset es2"
    using same by (simp only:)
  then show ?thesis
    using mset_commit [of es1 es2 r] scanInOrder_possible by blast
qed

theorem worker_count_independent_witness:
  "(1::int) \<le> 1 \<and> (1::int) \<le> 4
   \<and> scanLibrary library_fs ''lib'' 1
        ([OrphanedFile ''lib/readme.txt'']
         @ processStudio library_fs ''lib/Locked'' @ processStudio library_fs ''lib/StudioA''
         @ processStudio library_fs ''lib/StudioB'' @ [EmptyFolder ''lib/StudioB''])
   \<and> scanLibrary library_fs ''lib'' 4
        ([OrphanedFile ''lib/readme.txt'']
         @ processStudio library_fs ''lib/StudioA'' @ processStudio library_fs ''lib/Locked''
         @ processStudio library_fs ''lib/StudioB'' @ [EmptyFolder ''lib/StudioB''])
   \<and> StructureWarnings
        (commit ([OrphanedFile ''lib/readme.txt'']
                 @ processStudio library_fs ''lib/Locked'' @ processStudio library_fs ''lib/StudioA''
                 @ processStudio library_fs ''lib/StudioB'' @ [EmptyFolder ''lib/StudioB''])
           empty_result)
       \<noteq> StructureWarnings
        (commit ([OrphanedFile ''lib/readme.txt'']
                 @ processStudio library_fs ''lib/StudioA'' @ processStudio library_fs ''lib/Locked''
                 @ processStudio library_fs ''lib/StudioB'' @ [EmptyFolder ''lib/StudioB''])
           empty_result)
   \<and> mset (StructureWarnings
        (commit ([OrphanedFile ''lib/readme.txt'']
                 @ processStudio library_fs ''lib/Locked'' @ processStudio library_fs ''lib/StudioA''
                 @ processStudio library_fs ''lib/StudioB'' @ [EmptyFolder ''lib/StudioB''])
           empty_result))
       = mset (StructureWarnings
        (commit ([OrphanedFile ''lib/readme.txt'']
                 @ processStudio library_fs ''lib/StudioA'' @ processStudio library_fs ''lib/Locked''
                 @ processStudio library_fs ''lib/StudioB'' @ [EmptyFolder ''lib/StudioB''])
           empty_result))
   \<and> OrphanedFolders
        (commit ([OrphanedFile ''lib/readme.txt'']
                 @ processStudio library_fs ''lib/StudioA'' @ processStudio library_fs ''lib/Locked''
                 @ processStudio library_fs ''lib/StudioB'' @ [EmptyFolder ''lib/StudioB''])
           empty_result)
       = [''lib/StudioA/Movie2'']
   \<and> OrphanedFiles
        (commit ([OrphanedFile ''lib/readme.txt'']
                 @ processStudio library_fs ''lib/StudioA'' @ processStudio library_fs ''lib/Locked''
                 @ processStudio library_fs ''lib/StudioB'' @ [EmptyFolder ''lib/StudioB''])
           empty_result)
       = [''lib/readme.txt'', ''lib/StudioA/deleted.nfo'']
   \<and> EmptyFolders
        (commit ([OrphanedFile ''lib/readme.txt'']
                 @ processStudio library_fs ''lib/StudioA'' @ processStudio library_fs ''lib/Locked''
                 @ processStudio library_fs ''lib/StudioB'' @ [EmptyFolder ''lib/StudioB''])
           empty_result)
       = [''lib/StudioA/Movie3'', ''lib/StudioB'']"
proof -
  let ?in_order = "[OrphanedFile ''lib/readme.txt'']
      @ processStudio library_fs ''lib/Locked'' @ processStudio library_fs ''lib/StudioA''
      @ processStudio library_fs ''lib/StudioB'' @ [EmptyFolder ''lib/StudioB'']"
  let ?swapped = "[OrphanedFile ''lib/readme.txt'']
      @ processStudio library_fs ''lib/StudioA'' @ processStudio library_fs ''lib/Locked''
      @ processStudio library_fs ''lib/StudioB'' @ [EmptyFolder ''lib/StudioB'']"
  have "scanInOrder library_fs ''lib'' 1 = ?in_order"
    by (simp add: scanInOrder_def library_fs_root library_fs_emissions(1,5)
        del: collectStudioDirs.simps secondPass.simps)
  with scanInOrder_possible [of library_fs "''lib''" 1]
  have one: "scanLibrary library_fs ''lib'' 1 ?in_order"
    by simp
  have "(step library_fs)\<^sup>*\<^sup>*
      (initial [''lib/Locked'', ''lib/StudioA'', ''lib/StudioB''] 4 [OrphanedFile ''lib/readme.txt''])
      (returned_state [''lib/Locked'', ''lib/StudioA'', ''lib/StudioB''] [] 4 ?swapped)"
    using run_swapped_state [of 4 library_fs "''lib/Locked''" "''lib/StudioA''" "[''lib/StudioB'']"
        "[OrphanedFile ''lib/readme.txt'']"]
    by (simp add: library_fs_emissions(5) del: secondPass.simps)
  then have four: "scanLibrary library_fs ''lib'' 4 ?swapped"
    unfolding scanLibrary_def
    by (simp add: library_fs_root library_fs_emissions(1) del: collectStudioDirs.simps)
       (rule exI [of _ "returned_state [''lib/Locked'', ''lib/StudioA'', ''lib/StudioB''] [] 4 ?swapped"],
        simp add: returned_state_def)
  have le: "(1::int) \<le> 1" "(1::int) \<le> 4" by simp_all
  have order: "StructureWarnings (commit ?in_order empty_result)
      \<noteq> StructureWarnings (commit ?swapped empty_result)"
    by (simp add: library_fs_emissions empty_result_def)
  have vals: "OrphanedFolders (commit ?swapped empty_result) = [''lib/StudioA/Movie2'']"
    "OrphanedFiles (commit ?swapped empty_result) = [''lib/readme.txt'', ''lib/StudioA/deleted.nfo'']"
    "EmptyFolders (commit ?swapped empty_result) = [''lib/StudioA/Movie3'', ''lib/StudioB'']"
    by (simp_all add: library_fs_emissions empty_result_def)
  from worker_count_independent [OF le one four, of empty_result]
  have "mset (StructureWarnings (commit ?in_order empty_result))
      = mset (StructureWarnings (commit ?swapped empty_result))"
    by blast
  with le one four order vals show ?thesis
    by (intro conjI)
qed

text \<open>
  C4. In a library or studio directory that holds the files \<open>movie.mkv\<close> and
  \<open>movie2.nfo\<close>, the basename \<open>movie2\<close> starts with the video basename \<open>movie\<close>, so
  \<open>movie2.nfo\<close> gets a Structure Warning and is not an Orphaned File.
\<close>

theorem prefix_quirk_movie2:
  assumes "ReadDir fs dirPath = Inr entries"
    and "file_entry ''movie.mkv'' \<in> set entries"
    and "file_entry ''movie2.nfo'' \<in> set entries"
  shows "lowerBasename ''movie.mkv'' = ''movie'' \<and> lowerBasename ''movie2.nfo'' = ''movie2''
       \<and> HasPrefix ''movie2'' ''movie''
       \<and> StructureWarning (MetadataAtLevel level (Join dirPath ''movie2.nfo''))
           \<in> set (checkDirectChildren fs dirPath level)
       \<and> OrphanedFile (Join dirPath ''movie2.nfo'') \<notin> set (checkDirectChildren fs dirPath level)"
proof -
  have names: "entryName ''movie2.nfo''"
    by (simp add: entryName_def)
  have base: "lowerBasename ''movie.mkv'' = ''movie''" "lowerBasename ''movie2.nfo'' = ''movie2''"
    "HasPrefix ''movie2'' ''movie''"
    by (simp_all add: lowerBasename_def string_defs)
  have "isVideoFile (file_entry ''movie.mkv'')"
    by (simp add: isVideoFile_def entry_simps string_defs)
  with assms(2) base(1) have "''movie'' \<in> videoBasenamesOf entries"
    by (force simp: videoBasenamesOf_def entry_simps)
  moreover have "prefix ''movie'' (ToLower (TrimSuffix ''movie2.nfo'' (ToLower (Ext ''movie2.nfo''))))"
    by (simp add: string_defs)
  moreover have "\<not> videoExtensions (ToLower (Ext ''movie2.nfo''))"
    by (simp add: string_defs)
  ultimately have cat: "categorize level (videoBasenamesOf entries) (Join dirPath ''movie2.nfo'')
      = StructureWarning (MetadataAtLevel level (Join dirPath ''movie2.nfo''))"
    using names by (auto simp: categorize_entry)
  have "StructureWarning (MetadataAtLevel level (Join dirPath ''movie2.nfo''))
      \<in> set (checkDirectChildren fs dirPath level)"
    using assms(3) cat by (force simp: mem_checkDirectChildren [OF assms(1)] entry_simps)
  moreover have "OrphanedFile (Join dirPath ''movie2.nfo'') \<notin> set (checkDirectChildren fs dirPath level)"
  proof
    assume "OrphanedFile (Join dirPath ''movie2.nfo'') \<in> set (checkDirectChildren fs dirPath level)"
    then obtain e :: DirEntry where "OrphanedFile (Join dirPath ''movie2.nfo'')
        = categorize level (videoBasenamesOf entries) (Join dirPath (Name e))"
      unfolding mem_checkDirectChildren [OF assms(1)] by blast
    then have "categorize level (videoBasenamesOf entries) (Join dirPath (Name e))
        = OrphanedFile (Join dirPath ''movie2.nfo'')"
      by simp
    then have "categorize level (videoBasenamesOf entries) (Join dirPath ''movie2.nfo'')
        = OrphanedFile (Join dirPath ''movie2.nfo'')"
      using OrphanedFile_categorize by metis
    with cat show False by simp
  qed
  ultimately show ?thesis using base by simp
qed

theorem prefix_quirk_movie2_witness:
  "ReadDir library_fs ''lib/StudioA''
     = Inr [dir_entry ''Gone'', dir_entry ''Movie1'', dir_entry ''Movie2'', dir_entry ''Movie3'',
            file_entry ''deleted.nfo'', file_entry ''movie.mkv'', file_entry ''movie2.nfo'']
   \<and> StructureWarning (MetadataAtLevel ''studio'' ''lib/StudioA/movie2.nfo'')
       \<in> set (checkDirectChildren library_fs ''lib/StudioA'' ''studio'')
   \<and> OrphanedFile ''lib/StudioA/movie2.nfo''
       \<notin> set (checkDirectChildren library_fs ''lib/StudioA'' ''studio'')"
proof -
  have r: "ReadDir library_fs ''lib/StudioA''
      = Inr [dir_entry ''Gone'', dir_entry ''Movie1'', dir_entry ''Movie2'', dir_entry ''Movie3'',
             file_entry ''deleted.nfo'', file_entry ''movie.mkv'', file_entry ''movie2.nfo'']"
    by (simp add: library_fs_def tree_fs_def)
  show ?thesis
    using prefix_quirk_movie2 [OF r, of "''studio''"] r by (simp add: Join_def)
qed

text \<open>
  C5. In a title folder that is read, each subdirectory whose lowercased name does not
  end with \<open>.trickplay\<close> adds exactly one Structure Warning, and a subdirectory whose
  lowercased name ends with \<open>.trickplay\<close>, in any letter case, adds none; there is no
  other warning. What is appended to the other three sequences depends only on whether
  the folder has entries and whether one of them is a video file.
\<close>

theorem unexpected_subdir_warnings:
  assumes "ReadDir fs titlePath = Inr entries"
    and "r' = commit (processTitleFolder fs titlePath) r"
  shows "StructureWarnings r' = StructureWarnings r @
           map (\<lambda>e. ''Unexpected subdirectory in title folder: '' @ Join titlePath (Name e))
             (filter (\<lambda>e. IsDir e \<and> \<not> HasSuffix (ToLower (Name e)) ''.trickplay'') entries)
       \<and> isMetadataSubdir ''movie.trickplay'' \<and> isMetadataSubdir ''MOVIE.TRICKPLAY''
       \<and> EmptyFolders r' = EmptyFolders r @ (if entries = [] then [titlePath] else [])
       \<and> OrphanedFolders r' = OrphanedFolders r @
           (if entries \<noteq> [] \<and> \<not> (\<exists>e \<in> set entries. isVideoFile e) then [titlePath] else [])
       \<and> OrphanedFiles r' = OrphanedFiles r"
proof -
  have "isMetadataSubdir ''movie.trickplay''" "isMetadataSubdir ''MOVIE.TRICKPLAY''"
    by (simp_all add: isMetadataSubdir_def metadataSubdirSuffixes_def string_defs)
  moreover have "isMetadataSubdir name = HasSuffix (ToLower name) ''.trickplay''" for name
    by (simp add: isMetadataSubdir_def metadataSubdirSuffixes_def)
  ultimately show ?thesis
    using assms(2)
    by (simp add: processTitleFolder_readable [OF assms(1)] StructureWarnings_commit
        EmptyFolders_commit OrphanedFolders_commit OrphanedFiles_commit comp_def)
qed

theorem unexpected_subdir_warnings_witness:
  "ReadDir library_fs ''lib/StudioA/Movie1''
     = Inr [dir_entry ''MOVIE.TRICKPLAY'', dir_entry ''extras'', file_entry ''movie.Mkv'',
            file_entry ''movie.nfo'']
   \<and> commit (processTitleFolder library_fs ''lib/StudioA/Movie1'') empty_result
     = \<lparr>OrphanedFolders = [], OrphanedFiles = [], EmptyFolders = [],
        StructureWarnings = [''Unexpected subdirectory in title folder: lib/StudioA/Movie1/extras'']\<rparr>
   \<and> ReadDir library_fs ''lib/StudioA/Movie2'' = Inr [dir_entry ''extras'', file_entry ''poster.jpg'']
   \<and> commit (processTitleFolder library_fs ''lib/StudioA/Movie2'') empty_result
     = \<lparr>OrphanedFolders = [''lib/StudioA/Movie2''], OrphanedFiles = [], EmptyFolders = [],
        StructureWarnings = [''Unexpected subdirectory in title folder: lib/StudioA/Movie2/extras'']\<rparr>"
proof -
  have r1: "ReadDir library_fs ''lib/StudioA/Movie1''
      = Inr [dir_entry ''MOVIE.TRICKPLAY'', dir_entry ''extras'', file_entry ''movie.Mkv'',
             file_entry ''movie.nfo'']"
    by (simp add: library_fs_def tree_fs_def)
  have r2: "ReadDir library_fs ''lib/StudioA/Movie2''
      = Inr [dir_entry ''extras'', file_entry ''poster.jpg'']"
    by (simp add: library_fs_def tree_fs_def)
  have c1: "commit (processTitleFolder library_fs ''lib/StudioA/Movie1'') empty_result
      = \<lparr>OrphanedFolders = [], OrphanedFiles = [], EmptyFolders = [],
         StructureWarnings = [''Unexpected subdirectory in title folder: lib/StudioA/Movie1/extras'']\<rparr>"
    using unexpected_subdir_warnings [OF r1 refl, of empty_result]
    by (simp add: empty_result_def entry_simps isVideoFile_def string_defs
        CleanupResult.equality)
  have c2: "commit (processTitleFolder library_fs ''lib/StudioA/Movie2'') empty_result
      = \<lparr>OrphanedFolders = [''lib/StudioA/Movie2''], OrphanedFiles = [], EmptyFolders = [],
         StructureWarnings = [''Unexpected subdirectory in title folder: lib/StudioA/Movie2/extras'']\<rparr>"
    using unexpected_subdir_warnings [OF r2 refl, of empty_result]
    by (simp add: empty_result_def entry_simps isVideoFile_def string_defs
        CleanupResult.equality)
  show ?thesis
    using r1 r2 c1 c2 by simp
qed




text \<open>
  C7. In a scan of a library root whose entries have proper names: whenever the
  coordinator is in the second pass or has returned, the channel is closed and every
  worker has exited (the step from \<^verbatim>\<open>wg.Wait()\<close> to the second pass needs it); while it
  is still sending or waiting, no Empty Folder has been appended for a studio directory;
  and when it has returned, the appends of the second pass follow all the appends of the
  workers, and an Empty Folder has been appended for a studio directory if and only if
  reading that directory succeeds with zero entries.
\<close>

theorem empty_studio_after_barrier:
  assumes "(step fs)\<^sup>*\<^sup>* (initial dirs numWorkers done) s"
    and "dirs = collectStudioDirs libraryPath studioEntries []"
    and "done = checkDirectChildren fs libraryPath ''library''"
    and "\<forall>e \<in> set studioEntries. entryName (Name e)"
  shows "((\<exists>rest. coord s = Checking rest) \<or> coord s = Returned \<longrightarrow>
            closed s \<and> list_all (\<lambda>w. w = Exited) (workers s))
       \<and> ((\<exists>rest. coord s = Sending rest) \<or> coord s = Waiting \<longrightarrow>
            (\<forall>studioPath \<in> set dirs. EmptyFolder studioPath \<notin> set (emitted s)))
       \<and> (coord s = Returned \<longrightarrow>
            (\<exists>W. emitted s = done @ W @ secondPass fs dirs \<and>
                 set W \<subseteq> (\<Union>d \<in> set dirs. set (processStudio fs d))) \<and>
            (\<forall>studioPath \<in> set dirs.
               EmptyFolder studioPath \<in> set (emitted s) \<longleftrightarrow> ReadDir fs studioPath = Inr []))"
proof -
  from assms(1) obtain W P taken where inv: "pool_inv fs dirs done W P taken s"
    using pool_inv_reachable by blast
  have W: "set W \<subseteq> (\<Union>d \<in> set dirs. set (processStudio fs d))"
    using pool_inv_workers_emitted [OF inv] .
  have em: "emitted s = done @ W @ P"
    using inv by (simp add: pool_inv_def)
  have not_done: "EmptyFolder d \<notin> set done" for d
    using assms(3) by (simp add: EmptyFolder_notin_checkDirectChildren)
  have not_W: "EmptyFolder d \<notin> set W" if "d \<in> set dirs" for d
  proof
    assume "EmptyFolder d \<in> set W"
    with W obtain d' where d': "d' \<in> set dirs" "EmptyFolder d \<in> set (processStudio fs d')"
      by blast
    then obtain sub where sub: "d = Join d' sub"
      using EmptyFolder_processStudio by blast
    from that assms(2,4) obtain name where "d = Join libraryPath name" "CHR ''/'' \<notin> set name"
      by (auto simp: set_collectStudioDirs entryName_def)
    moreover from d'(1) assms(2) obtain name' where "d' = Join libraryPath name'"
      by (auto simp: set_collectStudioDirs)
    ultimately show False
      using sub Join_Join_neq by metis
  qed
  have barrier: "closed s \<and> list_all (\<lambda>w. w = Exited) (workers s)"
    if "(\<exists>rest. coord s = Checking rest) \<or> coord s = Returned"
    using inv that by (auto simp: pool_inv_def)
  have before: "EmptyFolder d \<notin> set (emitted s)"
    if "(\<exists>rest. coord s = Sending rest) \<or> coord s = Waiting" "d \<in> set dirs" for d
  proof -
    from inv that(1) have "P = []" by (auto simp: pool_inv_def)
    with em not_done not_W [OF that(2)] show ?thesis by simp
  qed
  have after: "(\<exists>W. emitted s = done @ W @ secondPass fs dirs \<and>
                 set W \<subseteq> (\<Union>d \<in> set dirs. set (processStudio fs d))) \<and>
            (\<forall>d \<in> set dirs. EmptyFolder d \<in> set (emitted s) \<longleftrightarrow> ReadDir fs d = Inr [])"
    if "coord s = Returned"
  proof -
    from inv that have P: "P = secondPass fs dirs" by (simp add: pool_inv_def)
    have "EmptyFolder d \<in> set (emitted s) \<longleftrightarrow> ReadDir fs d = Inr []" if "d \<in> set dirs" for d
      using em P not_done not_W [OF that] that by (simp add: EmptyFolder_secondPass)
    with em P W show ?thesis by blast
  qed
  show ?thesis
    using barrier before after by blast
qed

theorem empty_studio_after_barrier_witness:
  "(step library_fs)\<^sup>*\<^sup>*
      (initial [''lib/Locked'', ''lib/StudioA'', ''lib/StudioB''] 4 [OrphanedFile ''lib/readme.txt''])
      (returned_state [''lib/Locked'', ''lib/StudioA'', ''lib/StudioB''] [] 4
         ([OrphanedFile ''lib/readme.txt'']
          @ processStudio library_fs ''lib/StudioA'' @ processStudio library_fs ''lib/Locked''
          @ processStudio library_fs ''lib/StudioB'' @ [EmptyFolder ''lib/StudioB'']))
   \<and> [''lib/Locked'', ''lib/StudioA'', ''lib/StudioB'']
       = collectStudioDirs ''lib''
           [dir_entry ''Locked'', dir_entry ''StudioA'', dir_entry ''StudioB'',
            file_entry ''readme.txt''] []
   \<and> [OrphanedFile ''lib/readme.txt''] = checkDirectChildren library_fs ''lib'' ''library''
   \<and> entryName ''Locked'' \<and> entryName ''StudioA'' \<and> entryName ''StudioB''
   \<and> entryName ''readme.txt''
   \<and> list_all (\<lambda>w. w = Exited)
        (workers (returned_state [''lib/Locked'', ''lib/StudioA'', ''lib/StudioB''] [] 4
           ([OrphanedFile ''lib/readme.txt'']
            @ processStudio library_fs ''lib/StudioA'' @ processStudio library_fs ''lib/Locked''
            @ processStudio library_fs ''lib/StudioB'' @ [EmptyFolder ''lib/StudioB''])))
   \<and> ReadDir library_fs ''lib/StudioB'' = Inr []
   \<and> EmptyFolder ''lib/StudioB''
       \<in> set ([OrphanedFile ''lib/readme.txt'']
          @ processStudio library_fs ''lib/StudioA'' @ processStudio library_fs ''lib/Locked''
          @ processStudio library_fs ''lib/StudioB'' @ [EmptyFolder ''lib/StudioB''])
   \<and> ReadDir library_fs ''lib/StudioA'' \<noteq> Inr []
   \<and> EmptyFolder ''lib/StudioA''
       \<notin> set ([OrphanedFile ''lib/readme.txt'']
          @ processStudio library_fs ''lib/StudioA'' @ processStudio library_fs ''lib/Locked''
          @ processStudio library_fs ''lib/StudioB'' @ [EmptyFolder ''lib/StudioB''])
   \<and> ReadDir library_fs ''lib/Locked'' = Inl ''permission denied''
   \<and> EmptyFolder ''lib/Locked''
       \<notin> set ([OrphanedFile ''lib/readme.txt'']
          @ processStudio library_fs ''lib/StudioA'' @ processStudio library_fs ''lib/Locked''
          @ processStudio library_fs ''lib/StudioB'' @ [EmptyFolder ''lib/StudioB''])
   \<and> coord (initial [''lib/Locked'', ''lib/StudioA'', ''lib/StudioB''] 4
              [OrphanedFile ''lib/readme.txt''])
       = Sending [''lib/Locked'', ''lib/StudioA'', ''lib/StudioB'']
   \<and> EmptyFolder ''lib/StudioB''
       \<notin> set (emitted (initial [''lib/Locked'', ''lib/StudioA'', ''lib/StudioB''] 4
                        [OrphanedFile ''lib/readme.txt'']))"
proof -
  let ?dirs = "[''lib/Locked'', ''lib/StudioA'', ''lib/StudioB'']"
  let ?done = "[OrphanedFile ''lib/readme.txt'']"
  let ?entries = "[dir_entry ''Locked'', dir_entry ''StudioA'', dir_entry ''StudioB'',
      file_entry ''readme.txt'']"
  let ?trace = "[OrphanedFile ''lib/readme.txt'']
      @ processStudio library_fs ''lib/StudioA'' @ processStudio library_fs ''lib/Locked''
      @ processStudio library_fs ''lib/StudioB'' @ [EmptyFolder ''lib/StudioB'']"
  have reach: "(step library_fs)\<^sup>*\<^sup>* (initial ?dirs 4 ?done) (returned_state ?dirs [] 4 ?trace)"
    using run_swapped_state [of 4 library_fs "''lib/Locked''" "''lib/StudioA''" "[''lib/StudioB'']" ?done]
    by (simp add: library_fs_emissions(5) del: secondPass.simps)
  have start: "(step library_fs)\<^sup>*\<^sup>* (initial ?dirs 4 ?done) (initial ?dirs 4 ?done)"
    by simp
  have dirs: "?dirs = collectStudioDirs ''lib'' ?entries []"
    by (simp only: library_fs_root(3))
  have "done": "?done = checkDirectChildren library_fs ''lib'' ''library''"
    by (simp only: library_fs_emissions(1))
  have names: "\<forall>e \<in> set ?entries. entryName (Name e)"
    by (simp add: entryName_def entry_simps)
  have reads: "ReadDir library_fs ''lib/StudioB'' = Inr []"
    "ReadDir library_fs ''lib/StudioA'' \<noteq> Inr []"
    "ReadDir library_fs ''lib/Locked'' = Inl ''permission denied''"
    by (simp_all add: example_defs)
  have ret: "coord (returned_state ?dirs [] 4 ?trace) = Returned"
    "emitted (returned_state ?dirs [] 4 ?trace) = ?trace"
    by (simp_all add: returned_state_def)
  have ini: "coord (initial ?dirs 4 ?done) = Sending ?dirs"
    by (simp add: initial_def)
  from empty_studio_after_barrier [OF reach dirs "done" names] ret
  have "list_all (\<lambda>w. w = Exited) (workers (returned_state ?dirs [] 4 ?trace))"
    and "\<forall>d \<in> set ?dirs. EmptyFolder d \<in> set ?trace \<longleftrightarrow> ReadDir library_fs d = Inr []"
    by simp_all
  moreover from empty_studio_after_barrier [OF start dirs "done" names] ini
  have "\<forall>d \<in> set ?dirs. EmptyFolder d \<notin> set (emitted (initial ?dirs 4 ?done))"
    by simp
  ultimately show ?thesis
    using reach reads ini
    by (simp add: entryName_def library_fs_root(3) library_fs_emissions
        del: collectStudioDirs.simps)
qed

text \<open>
  C8. A scan with no worker (a worker count of zero, or below) neither blocks nor runs
  forever. In every state it can reach there is no worker; unless the coordinator has
  returned, a step is possible; a state in which it has returned can be reached; no run
  is infinite; and when it has returned, the channel holds all the studio directories
  and is closed, and nothing has been appended but the Empty Folders of the second pass:
  no studio directory has been processed.
\<close>

theorem zero_workers_scan_returns:
  assumes "numWorkers \<le> 0" and "(step fs)\<^sup>*\<^sup>* (initial dirs numWorkers done) s"
  shows "workers s = []
       \<and> (coord s \<noteq> Returned \<longrightarrow> (\<exists>s'. step fs s s'))
       \<and> (\<exists>s'. (step fs)\<^sup>*\<^sup>* s s' \<and> coord s' = Returned)
       \<and> (\<nexists>run. run 0 = s \<and> (\<forall>i. step fs (run i) (run (Suc i))))
       \<and> (coord s = Returned \<longrightarrow>
            studioChan s = dirs \<and> closed s \<and> emitted s = done @ secondPass fs dirs)"
proof -
  from assms(2) obtain W P taken where inv: "pool_inv fs dirs done W P taken s"
    using pool_inv_reachable by blast
  from assms have none: "workers s = []"
    using reachable_workers_length [OF assms(2)] by simp
  have "\<exists>s'. step fs s s'" if "coord s \<noteq> Returned"
    using pool_progress [OF inv that] .
  moreover have "\<exists>s'. (step fs)\<^sup>*\<^sup>* s s' \<and> coord s' = Returned"
    using reaches_return [OF inv] .
  moreover have "\<nexists>run. run 0 = s \<and> (\<forall>i. step fs (run i) (run (Suc i)))"
    using no_infinite_run [of fs] by blast
  moreover have "studioChan s = dirs \<and> closed s \<and> emitted s = done @ secondPass fs dirs"
    if "coord s = Returned"
    using inv that none by (auto simp: pool_inv_def)
  ultimately show ?thesis
    using none by blast
qed

theorem zero_workers_scan_returns_witness:
  "(0::int) \<le> 0
   \<and> (step library_fs)\<^sup>*\<^sup>*
        (initial [''lib/Locked'', ''lib/StudioA'', ''lib/StudioB''] 0 [OrphanedFile ''lib/readme.txt''])
        (initial [''lib/Locked'', ''lib/StudioA'', ''lib/StudioB''] 0 [OrphanedFile ''lib/readme.txt''])
   \<and> coord (initial [''lib/Locked'', ''lib/StudioA'', ''lib/StudioB''] 0 [OrphanedFile ''lib/readme.txt''])
       \<noteq> Returned
   \<and> (\<exists>s'. step library_fs
          (initial [''lib/Locked'', ''lib/StudioA'', ''lib/StudioB''] 0 [OrphanedFile ''lib/readme.txt''])
          s')
   \<and> (step library_fs)\<^sup>*\<^sup>*
        (initial [''lib/Locked'', ''lib/StudioA'', ''lib/StudioB''] 0 [OrphanedFile ''lib/readme.txt''])
        (returned_state [''lib/Locked'', ''lib/StudioA'', ''lib/StudioB'']
           [''lib/Locked'', ''lib/StudioA'', ''lib/StudioB''] 0
           [OrphanedFile ''lib/readme.txt'', EmptyFolder ''lib/StudioB''])
   \<and> coord (returned_state [''lib/Locked'', ''lib/StudioA'', ''lib/StudioB'']
           [''lib/Locked'', ''lib/StudioA'', ''lib/StudioB''] 0
           [OrphanedFile ''lib/readme.txt'', EmptyFolder ''lib/StudioB'']) = Returned
   \<and> workers (returned_state [''lib/Locked'', ''lib/StudioA'', ''lib/StudioB'']
           [''lib/Locked'', ''lib/StudioA'', ''lib/StudioB''] 0
           [OrphanedFile ''lib/readme.txt'', EmptyFolder ''lib/StudioB'']) = []
   \<and> [OrphanedFile ''lib/readme.txt'', EmptyFolder ''lib/StudioB'']
       = [OrphanedFile ''lib/readme.txt'']
         @ secondPass library_fs [''lib/Locked'', ''lib/StudioA'', ''lib/StudioB'']
   \<and> scanLibrary library_fs ''lib'' 0 [OrphanedFile ''lib/readme.txt'', EmptyFolder ''lib/StudioB'']"
proof -
  let ?dirs = "[''lib/Locked'', ''lib/StudioA'', ''lib/StudioB'']"
  let ?done = "[OrphanedFile ''lib/readme.txt'']"
  let ?final = "returned_state ?dirs ?dirs 0 [OrphanedFile ''lib/readme.txt'', EmptyFolder ''lib/StudioB'']"
  have zero: "(0::int) \<le> 0" by simp
  have start: "(step library_fs)\<^sup>*\<^sup>* (initial ?dirs 0 ?done) (initial ?dirs 0 ?done)"
    by simp
  have final: "(step library_fs)\<^sup>*\<^sup>* (initial ?dirs 0 ?done) ?final"
    using run_no_workers_state [OF zero, of library_fs ?dirs ?done]
    by (simp add: library_fs_emissions(5) del: secondPass.simps)
  have "scanInOrder library_fs ''lib'' 0 = [OrphanedFile ''lib/readme.txt'', EmptyFolder ''lib/StudioB'']"
    by (simp add: scanInOrder_def library_fs_root library_fs_emissions(1,5)
        del: collectStudioDirs.simps secondPass.simps)
  with scanInOrder_possible [of library_fs "''lib''" 0]
  have scan: "scanLibrary library_fs ''lib'' 0 [OrphanedFile ''lib/readme.txt'', EmptyFolder ''lib/StudioB'']"
    by simp
  have "\<exists>s'. step library_fs (initial ?dirs 0 ?done) s'"
    using zero_workers_scan_returns [OF zero start] by (simp add: initial_def)
  moreover have "workers ?final = []"
    using zero_workers_scan_returns [OF zero final] by blast
  ultimately show ?thesis
    using zero start final scan
    by (simp add: library_fs_emissions(5) initial_def returned_state_def del: secondPass.simps)
qed



text \<open>
  C10. If a library or studio directory holds a video file whose name is only its
  extension (such as \<open>.mkv\<close>), the basename computed for it is the empty string, which
  is a prefix of every string: every file of that directory that is not a video gets the
  Structure Warning for matched metadata, and no Orphaned File is emitted.
\<close>

theorem extension_only_video_matches_all:
  assumes "ReadDir fs dirPath = Inr entries"
    and "\<forall>e \<in> set entries. entryName (Name e)"
    and "v \<in> set entries" and "isVideoFile v" and "Ext (Name v) = Name v"
  shows "lowerBasename (Name v) = []
       \<and> orphanedFilesOf (checkDirectChildren fs dirPath level) = []
       \<and> (\<forall>e \<in> set entries. \<not> IsDir e \<and> \<not> isVideoFile e \<longrightarrow>
             StructureWarning (MetadataAtLevel level (Join dirPath (Name e)))
               \<in> set (checkDirectChildren fs dirPath level))"
proof -
  have empty: "lowerBasename (Name v) = []"
    using assms(5) by (simp add: lowerBasename_def TrimSuffix_def HasSuffix_def ToLower_def)
  with assms(3,4) have vb: "[] \<in> videoBasenamesOf entries"
    by (force simp: videoBasenamesOf_def)
  have cat: "categorize level (videoBasenamesOf entries) (Join dirPath (Name e)) =
      (if isVideoFile e then StructureWarning (VideoAtLevel level (Join dirPath (Name e)))
       else StructureWarning (MetadataAtLevel level (Join dirPath (Name e))))"
    if "e \<in> set entries" "\<not> IsDir e" for e
    using that assms(2) vb by (auto simp: categorize_entry isVideoFile_def)
  have "checkDirectChildren fs dirPath level =
      map (\<lambda>e. StructureWarning
                 (if isVideoFile e then VideoAtLevel level (Join dirPath (Name e))
                  else MetadataAtLevel level (Join dirPath (Name e))))
        (filter (\<lambda>e. \<not> IsDir e) entries)"
    unfolding checkDirectChildren_readable [OF assms(1)]
    by (rule map_cong) (auto simp: cat)
  then show ?thesis
    using empty by (auto simp: image_iff)
qed

theorem extension_only_video_matches_all_witness:
  "ReadDir dotfile_fs ''lib''
     = Inr [file_entry ''.mkv'', file_entry ''cover.jpg'', file_entry ''notes.txt'']
   \<and> entryName ''.mkv'' \<and> entryName ''cover.jpg'' \<and> entryName ''notes.txt''
   \<and> isVideoFile (file_entry ''.mkv'') \<and> Ext ''.mkv'' = ''.mkv''
   \<and> \<not> isVideoFile (file_entry ''cover.jpg'') \<and> \<not> isVideoFile (file_entry ''notes.txt'')
   \<and> lowerBasename ''.mkv'' = []
   \<and> orphanedFilesOf (checkDirectChildren dotfile_fs ''lib'' ''library'') = []
   \<and> StructureWarning (MetadataAtLevel ''library'' ''lib/cover.jpg'')
       \<in> set (checkDirectChildren dotfile_fs ''lib'' ''library'')
   \<and> StructureWarning (MetadataAtLevel ''library'' ''lib/notes.txt'')
       \<in> set (checkDirectChildren dotfile_fs ''lib'' ''library'')"
proof -
  have r: "ReadDir dotfile_fs ''lib''
      = Inr [file_entry ''.mkv'', file_entry ''cover.jpg'', file_entry ''notes.txt'']"
    by (simp add: dotfile_fs_def tree_fs_def)
  have n: "\<forall>e \<in> set [file_entry ''.mkv'', file_entry ''cover.jpg'', file_entry ''notes.txt''].
      entryName (Name e)"
    by (simp add: entryName_def entry_simps)
  have v: "isVideoFile (file_entry ''.mkv'')" "Ext (Name (file_entry ''.mkv'')) = Name (file_entry ''.mkv'')"
    "\<not> isVideoFile (file_entry ''cover.jpg'')" "\<not> isVideoFile (file_entry ''notes.txt'')"
    by (simp_all add: isVideoFile_def entry_simps string_defs)
  show ?thesis
    using extension_only_video_matches_all [OF r n _ v(1,2), of "''library''"] r v
    by (simp add: entry_simps entryName_def Join_def)
qed

end
